theory Spec2Isabelle
  imports Main "HOL-Library.AList" "HOL-Library.DAList"
begin

section \<open>Data model of \<open>src/di.ts\<close>\<close>

text \<open>
  An injection identifier is a string or a class constructor
  (\<open>InjectionIdentifier<T> = string | (new (...args) => T)\<close>). A class constructor is a
  token with the name that \<open>getServiceIdentifierAsString\<close> prints and an identity: two
  different classes may carry the same name.
\<close>

datatype ctor = Ctor (ctor_name: string) (ctor_uid: nat)

datatype ident = StrId string | ClsId ctor

fun getServiceIdentifierAsString :: "ctor \<Rightarrow> string" where
  "getServiceIdentifierAsString c = ctor_name c"

text \<open>
  Values: a constant, or an object built by \<open>new\<close> with its reference (object identity),
  its class and the constructor arguments it was given.
\<close>

datatype val = VConst string | VObj nat ctor "val list"

datatype error =
    NotBound ident
  | Circular ident
  | NoSnapshot
  | DuplicateKey string
  | MissingKey string
  | TypeError
  | UserError string

text \<open>
  A \<open>Promise.Disposer\<close> wraps the promise of the acquired resource: rejected with an
  error or fulfilled with the resource. A disposer factory is user code: it may throw
  (\<open>Inl\<close>) or return a disposer.
\<close>

datatype disposer = Disposer (promise: "error + val")

record ScopeResource =
  "constructor" :: ctor
  disposerFactory :: "val \<Rightarrow> error + disposer"

text \<open>
  The producers a binding can hold: \<open>toConstantValue\<close>, \<open>to(C)\<close> (transient),
  \<open>to(C).inSingletonScope()\<close>, and the dynamic value that \<open>bindScopeResources\<close>
  installs, a closure over the resource's name, its instance binding and the resource.
\<close>

datatype producer =
    ToConstantValue val
  | ToClass ctor
  | ToSingleton ctor
  | ToScopeResource string ident ScopeResource

text \<open>
  The events a run leaves behind: a disposer was made for a resource (its acquisition
  started), the dynamic value handed an instance to a consumer, the task was applied to its
  arguments, a disposer released its resource.
\<close>

datatype event =
    Acquire string val
  | Provide string val
  | Invoke "val list"
  | Release string val

text \<open>
  The state shared by all scopes: the kernel (its binding dictionary, the instances its
  singleton bindings have cached, its stack of snapshots), the constructor parameters the
  decorators recorded for each class, the allocator of object identities, the
  \<open>context\<close> field of every \<open>ScopeContext\<close> object, and the log of events.
\<close>

record world =
  bindings :: "(ident \<times> producer) list"
  cache :: "(ident \<times> val) list"
  snapshots :: "((ident \<times> producer) list \<times> (ident \<times> val) list) list"
  paramtypes :: "(ctor \<times> ident list) list"
  nextRef :: nat
  heap :: "nat \<Rightarrow> (string \<rightharpoonup> val)"
  trace :: "event list"

text \<open>
  A scope: the container's resources, the declarations made by \<open>context\<close> and \<open>inject\<close>,
  and the disposer set. \<open>objToBindScopeContext\<close> is \<open>None\<close> until \<open>context\<close> is called; it
  then holds the context object, given by the names and values that \<open>_.forEach\<close> visits on
  it, in that order: the names of an object are distinct. The disposer set keeps the order
  of insertion, which is the order of \<open>_.map\<close> over it.
\<close>

record Scope =
  scopeResources :: "ScopeResource list"
  objToBindScopeContext :: "(string, val) alist option"
  injections :: "ident list"
  disposers :: "(string \<times> disposer) list"

section \<open>Plain objects used as dictionaries\<close>

text \<open>
  \<open>this.context\<close> and \<open>this.disposers\<close> are plain objects, created as \<open>{}\<close>: they inherit
  from \<open>Object.prototype\<close>. An object is modelled by its own properties; the names below
  are the properties it inherits, each with a truthy value. Values are constants and
  instances; none is callable.
\<close>

definition objectPrototypeKeys :: "string list" where
  "objectPrototypeKeys =
     [''constructor'', ''__defineGetter__'', ''__defineSetter__'', ''hasOwnProperty'',
      ''__lookupGetter__'', ''__lookupSetter__'', ''isPrototypeOf'', ''propertyIsEnumerable'',
      ''toString'', ''valueOf'', ''__proto__'', ''toLocaleString'']"

text \<open>
  \<open>obj.hasOwnProperty(name)\<close>: the method is looked up on the object first, so a value stored
  under \<open>hasOwnProperty\<close> is what gets called, and calling it is a \<open>TypeError\<close>.
\<close>

definition hasOwnProperty :: "(string \<rightharpoonup> val) \<Rightarrow> string \<Rightarrow> error + bool" where
  "hasOwnProperty obj name =
     (case obj ''hasOwnProperty'' of
        Some f \<Rightarrow> Inl TypeError
      | None \<Rightarrow> Inr (obj name \<noteq> None))"

text \<open>
  \<open>obj[name] = value\<close>: an own property is written, except under \<open>__proto__\<close>, where the
  setter inherited from \<open>Object.prototype\<close> runs and no own property is made.
\<close>

definition assign :: "(string \<rightharpoonup> val) \<Rightarrow> string \<Rightarrow> val \<Rightarrow> (string \<rightharpoonup> val)" where
  "assign obj name value = (if name = ''__proto__'' then obj else obj(name \<mapsto> value))"

text \<open>
  \<open>!obj[name]\<close> is false when the object has the property or inherits it.
\<close>

definition truthy :: "(string \<times> 'a) list \<Rightarrow> string \<Rightarrow> bool" where
  "truthy obj name = (map_of obj name \<noteq> None \<or> name \<in> set objectPrototypeKeys)"

section \<open>ScopeContext\<close>

definition ScopeContext :: ctor where
  "ScopeContext = Ctor ''ScopeContext'' 0"

text \<open>
  \<open>setOnce\<close> and \<open>get\<close> of the \<open>ScopeContext\<close> object at reference \<open>this\<close>, whose
  \<open>context\<close> field is a plain object. \<open>setOnce\<close> returns \<open>this\<close>. In \<open>get\<close> the property
  read follows a \<open>hasOwnProperty\<close> that answered true, so it finds an own property.
\<close>

definition setOnce :: "nat \<Rightarrow> string \<Rightarrow> val \<Rightarrow> world \<Rightarrow> (error + nat) \<times> world" where
  "setOnce this name value w =
     (case hasOwnProperty (heap w this) name of
        Inl e \<Rightarrow> (Inl e, w)
      | Inr True \<Rightarrow> (Inl (DuplicateKey name), w)
      | Inr False \<Rightarrow>
          (Inr this, w\<lparr>heap := (heap w)(this := assign (heap w this) name value)\<rparr>))"

definition get :: "nat \<Rightarrow> string \<Rightarrow> world \<Rightarrow> error + val" where
  "get this name w =
     (case hasOwnProperty (heap w this) name of
        Inl e \<Rightarrow> Inl e
      | Inr False \<Rightarrow> Inl (MissingKey name)
      | Inr True \<Rightarrow>
          (case heap w this name of
             Some value \<Rightarrow> Inr value
           | None \<Rightarrow> Inl (MissingKey name)))"

section \<open>The kernel\<close>

text \<open>
  Modelled from the spec: the kernel is the Binding Registry, an \<open>inversify\<close> container
  that is not under \<open>src/\<close>. Section 3 and 4.1 of the spec give its contract: a store from
  identifier to producer with at most one binding per identifier (binding again replaces
  the entry), \<open>bind\<close>, \<open>unbind\<close>, \<open>isBound\<close>, \<open>get\<close>, which constructs according to the
  producer's cardinality (constant, singleton, transient), and \<open>snapshot\<close>/\<open>restore\<close>,
  which checkpoint and roll back the whole binding set. A singleton binding caches its
  instance; a fresh binding has cached nothing, and the cached instances are part of what
  a snapshot saves.
\<close>

definition kernel_snapshot :: "world \<Rightarrow> world" where
  "kernel_snapshot w = w\<lparr>snapshots := (bindings w, cache w) # snapshots w\<rparr>"

definition kernel_restore :: "world \<Rightarrow> error + world" where
  "kernel_restore w =
     (case snapshots w of
        [] \<Rightarrow> Inl NoSnapshot
      | (b, c) # rest \<Rightarrow> Inr (w\<lparr>bindings := b, cache := c, snapshots := rest\<rparr>))"

definition kernel_isBound :: "ident \<Rightarrow> world \<Rightarrow> bool" where
  "kernel_isBound i w = (i \<in> fst ` set (bindings w))"

definition kernel_unbind :: "ident \<Rightarrow> world \<Rightarrow> world" where
  "kernel_unbind i w =
     w\<lparr>bindings := AList.delete i (bindings w), cache := AList.delete i (cache w)\<rparr>"

definition kernel_bind :: "ident \<Rightarrow> producer \<Rightarrow> world \<Rightarrow> world" where
  "kernel_bind i p w =
     w\<lparr>bindings := AList.update i p (bindings w), cache := AList.delete i (cache w)\<rparr>"

text \<open>
  The constructor parameters of a class are the identifiers its decorators recorded;
  \<open>ScopeContext\<close> is declared in \<open>di.ts\<close> without a constructor.
\<close>

definition paramsOf :: "world \<Rightarrow> ctor \<Rightarrow> ident list" where
  "paramsOf w c =
     (if c = ScopeContext then []
      else case map_of (paramtypes w) c of None \<Rightarrow> [] | Some ps \<Rightarrow> ps)"

text \<open>
  \<open>new C(args)\<close>: the object gets the next reference; the \<open>context\<close> field of a new
  \<open>ScopeContext\<close> is the empty dictionary.
\<close>

definition construct :: "ctor \<Rightarrow> val list \<Rightarrow> world \<Rightarrow> val \<times> world" where
  "construct c args w =
     (VObj (nextRef w) c args,
      w\<lparr>nextRef := Suc (nextRef w), heap := (heap w)(nextRef w := Map.empty)\<rparr>)"

text \<open>
  \<open>kernel.get\<close>. \<open>resolve bnd stk i\<close> resolves \<open>i\<close> in the binding dictionary \<open>bnd\<close>;
  \<open>stk\<close> holds the identifiers whose resolution is under way, and meeting one of them
  again is a circular dependency. The state is the scope whose \<open>run\<close> is resolving (the
  \<open>this\<close> of the dynamic values it installed) and the world. The \<open>kernel.get\<close> that a
  dynamic value makes is a request of its own; a cycle through it recurses without end in
  the source, and is reported as circular here.

  The last case is the dynamic value of \<open>bindScopeResources\<close> (di.ts, lines 160-166): it
  gets the instance, makes the disposer unless \<open>this.disposers[name]\<close> is truthy, and
  returns the instance. The events \<open>Acquire\<close> and \<open>Provide\<close> record what it did.
\<close>

function resolve ::
    "(ident \<times> producer) list \<Rightarrow> ident list \<Rightarrow> ident \<Rightarrow> Scope \<times> world
      \<Rightarrow> (error + val) \<times> Scope \<times> world"
  and resolve_all ::
    "(ident \<times> producer) list \<Rightarrow> ident list \<Rightarrow> ident list \<Rightarrow> Scope \<times> world
      \<Rightarrow> (error + val list) \<times> Scope \<times> world"
where
  "resolve bnd stk i (sc, w) =
     (if i \<in> set stk then (Inl (Circular i), sc, w)
      else case map_of bnd i of
        None \<Rightarrow> (Inl (NotBound i), sc, w)
      | Some (ToConstantValue v) \<Rightarrow> (Inr v, sc, w)
      | Some (ToClass c) \<Rightarrow>
          (case resolve_all bnd (i # stk) (paramsOf w c) (sc, w) of
             (Inl e, st) \<Rightarrow> (Inl e, st)
           | (Inr args, sc', w') \<Rightarrow>
               (case construct c args w' of (obj, w'') \<Rightarrow> (Inr obj, sc', w'')))
      | Some (ToSingleton c) \<Rightarrow>
          (case map_of (cache w) i of
             Some obj \<Rightarrow> (Inr obj, sc, w)
           | None \<Rightarrow>
               (case resolve_all bnd (i # stk) (paramsOf w c) (sc, w) of
                  (Inl e, st) \<Rightarrow> (Inl e, st)
                | (Inr args, sc', w') \<Rightarrow>
                    (case construct c args w' of
                       (obj, w'') \<Rightarrow> (Inr obj, sc', w''\<lparr>cache := (i, obj) # cache w''\<rparr>))))
      | Some (ToScopeResource name instanceBindName resource) \<Rightarrow>
          (case resolve bnd (i # stk) instanceBindName (sc, w) of
             (Inl e, st) \<Rightarrow> (Inl e, st)
           | (Inr instance, sc', w') \<Rightarrow>
               (if truthy (disposers sc') name
                then (Inr instance, sc', w'\<lparr>trace := trace w' @ [Provide name instance]\<rparr>)
                else
                  (case disposerFactory resource instance of
                     Inl e \<Rightarrow> (Inl e, sc', w')
                   | Inr d \<Rightarrow>
                       (Inr instance,
                        sc'\<lparr>disposers := disposers sc' @ [(name, d)]\<rparr>,
                        w'\<lparr>trace := trace w' @ [Acquire name instance, Provide name instance]\<rparr>)))))"
| "resolve_all bnd stk [] st = (Inr [], st)"
| "resolve_all bnd stk (i # rest) st =
     (case resolve bnd stk i st of
        (Inl e, st') \<Rightarrow> (Inl e, st')
      | (Inr v, st') \<Rightarrow>
          (case resolve_all bnd stk rest st' of
             (Inl e, st'') \<Rightarrow> (Inl e, st'')
           | (Inr vs, st'') \<Rightarrow> (Inr (v # vs), st'')))"
  by pat_completeness auto

termination
proof (relation "inv_image (less_than <*lex*> less_than)
    (\<lambda>x. case x of
       Inl (bnd, stk, i, st) \<Rightarrow> (card (fst ` set bnd - set stk), 0)
     | Inr (bnd, stk, ids, st) \<Rightarrow> (card (fst ` set bnd - set stk), Suc (length ids)))", goal_cases)
  case 1
  show ?case by (intro wf_inv_image wf_lex_prod wf_less_than)
next
  case (2 bnd stk i sc w x2 x2a)
  then have "i \<in> fst ` set bnd - set stk"
    by (auto dest: map_of_SomeD simp: rev_image_eqI)
  then have "fst ` set bnd - set (i # stk) \<subset> fst ` set bnd - set stk"
    by auto
  then have "card (fst ` set bnd - set (i # stk)) < card (fst ` set bnd - set stk)"
    by (intro psubset_card_mono) simp_all
  then show ?case by simp
next
  case (3 bnd stk i sc w x2 x3)
  then have "i \<in> fst ` set bnd - set stk"
    by (auto dest: map_of_SomeD simp: rev_image_eqI)
  then have "fst ` set bnd - set (i # stk) \<subset> fst ` set bnd - set stk"
    by auto
  then have "card (fst ` set bnd - set (i # stk)) < card (fst ` set bnd - set stk)"
    by (intro psubset_card_mono) simp_all
  then show ?case by simp
next
  case (4 bnd stk i sc w x2 x41 x42 x43)
  then have "i \<in> fst ` set bnd - set stk"
    by (auto dest: map_of_SomeD simp: rev_image_eqI)
  then have "fst ` set bnd - set (i # stk) \<subset> fst ` set bnd - set stk"
    by auto
  then have "card (fst ` set bnd - set (i # stk)) < card (fst ` set bnd - set stk)"
    by (intro psubset_card_mono) simp_all
  then show ?case by simp
next
  case 5
  then show ?case by simp
next
  case 6
  then show ?case by simp
qed

definition kernel_get :: "ident \<Rightarrow> Scope \<times> world \<Rightarrow> (error + val) \<times> Scope \<times> world" where
  "kernel_get i st = resolve (bindings (snd st)) [] i st"

section \<open>Promise.using\<close>

text \<open>
  What a task does when applied: it returns a value, throws, or returns a promise that is
  fulfilled or rejected. What \<open>run\<close> does: it throws, or returns a promise that is
  fulfilled or rejected.
\<close>

datatype task_result = Returns val | Throws error | Resolves val | Rejects error

datatype outcome = Thrown error | Fulfilled val | Rejected error

text \<open>
  \<open>Promise.resolve(task.apply(null, injectedObjects))\<close> inside the handler of
  \<open>Promise.using\<close>: a throw of the task rejects the promise the handler returns.
\<close>

fun settle :: "task_result \<Rightarrow> outcome" where
  "settle (Returns v) = Fulfilled v"
| "settle (Throws e) = Rejected e"
| "settle (Resolves v) = Fulfilled v"
| "settle (Rejects e) = Rejected e"

text \<open>
  Modelled from the spec: \<open>Promise.using\<close> is the guaranteed-cleanup combinator of the
  \<open>bluebird\<close> library, which is not under \<open>src/\<close>. Section 4.2 (step 6) and section 7 of
  the spec give its contract: when an acquisition fails the handler is not invoked and the
  failure is the result; otherwise the handler runs and its result is the result; in both
  cases every resource whose acquisition succeeded is released afterwards, once, in the
  order of the array. Release actions are taken to return normally. The disposers keep the
  name they are recorded under, which labels the \<open>Release\<close> event.
\<close>

fun rejection :: "(string \<times> disposer) list \<Rightarrow> error option" where
  "rejection [] = None"
| "rejection ((name, d) # rest) =
     (case promise d of Inl e \<Rightarrow> Some e | Inr resource \<Rightarrow> rejection rest)"

fun dispose :: "(string \<times> disposer) list \<Rightarrow> world \<Rightarrow> world" where
  "dispose [] w = w"
| "dispose ((name, d) # rest) w =
     dispose rest
       (case promise d of
          Inl e \<Rightarrow> w
        | Inr resource \<Rightarrow> w\<lparr>trace := trace w @ [Release name resource]\<rparr>)"

definition Promise_using ::
    "(string \<times> disposer) list \<Rightarrow> (world \<Rightarrow> task_result \<times> world) \<Rightarrow> world \<Rightarrow> outcome \<times> world" where
  "Promise_using disposerArray handler w =
     (case rejection disposerArray of
        Some e \<Rightarrow> (Rejected e, dispose disposerArray w)
      | None \<Rightarrow>
          (case handler w of (r, w') \<Rightarrow> (settle r, dispose disposerArray w')))"

section \<open>Scope\<close>

definition scope_context :: "(string, val) alist \<Rightarrow> Scope \<Rightarrow> Scope" where
  "scope_context contextToBind sc = sc\<lparr>objToBindScopeContext := Some contextToBind\<rparr>"

definition inject :: "ident list \<Rightarrow> Scope \<Rightarrow> Scope" where
  "inject args sc = sc\<lparr>injections := args\<rparr>"

text \<open>
  \<open>_.forEach(this.objToBindScopeContext, (value, name) => scopeContext.setOnce(name, value))\<close>:
  the entries in order; the first failing \<open>setOnce\<close> ends the loop with its error.
\<close>

fun forEach_setOnce :: "val \<Rightarrow> (string \<times> val) list \<Rightarrow> world \<Rightarrow> (error + unit) \<times> world" where
  "forEach_setOnce (VConst s) entries w = (Inl TypeError, w)"
| "forEach_setOnce (VObj this c args) [] w = (Inr (), w)"
| "forEach_setOnce (VObj this c args) ((name, value) # rest) w =
     (case setOnce this name value w of
        (Inl e, w') \<Rightarrow> (Inl e, w')
      | (Inr r, w') \<Rightarrow> forEach_setOnce (VObj this c args) rest w')"

definition bindScopeContext :: "Scope \<times> world \<Rightarrow> (error + unit) \<times> Scope \<times> world" where
  "bindScopeContext st =
     (case st of (sc, w) \<Rightarrow>
        let w1 = kernel_bind (ClsId ScopeContext) (ToSingleton ScopeContext) w in
        case objToBindScopeContext sc of
          None \<Rightarrow> (Inr (), sc, w1)
        | Some contextToBind \<Rightarrow>
            (case kernel_get (ClsId ScopeContext) (sc, w1) of
               (Inl e, st') \<Rightarrow> (Inl e, st')
             | (Inr scopeContext, sc', w2) \<Rightarrow>
                 (case forEach_setOnce scopeContext (DAList.impl_of contextToBind) w2 of
                    (r, w3) \<Rightarrow> (r, sc', w3))))"

definition bindResource :: "ScopeResource \<Rightarrow> world \<Rightarrow> world" where
  "bindResource resource w =
     (let name = getServiceIdentifierAsString (constructor resource);
          instanceBindName = name @ ''@instance''
      in kernel_bind (ClsId (constructor resource))
           (ToScopeResource name (StrId instanceBindName) resource)
           (kernel_bind (StrId instanceBindName) (ToSingleton (constructor resource)) w))"

definition bindScopeResources :: "Scope \<times> world \<Rightarrow> Scope \<times> world" where
  "bindScopeResources st = (case st of (sc, w) \<Rightarrow> (sc, fold bindResource (scopeResources sc) w))"

text \<open>
  \<open>this.injections.map(identifier => this.kernel.get(identifier))\<close>: one \<open>kernel.get\<close>
  after the other, each starting with nothing under resolution.
\<close>

definition injectScopeParameters :: "Scope \<times> world \<Rightarrow> (error + val list) \<times> Scope \<times> world" where
  "injectScopeParameters st = resolve_all (bindings (snd st)) [] (injections (fst st)) st"

text \<open>
  The part of \<open>run\<close> before \<open>Promise.using\<close> (di.ts, lines 122-126): an error thrown by
  one step ends it there.
\<close>

definition resolution :: "Scope \<times> world \<Rightarrow> (error + val list) \<times> Scope \<times> world" where
  "resolution st =
     (case st of (sc, w) \<Rightarrow>
        case bindScopeContext (sc, kernel_snapshot w) of
          (Inl e, st2) \<Rightarrow> (Inl e, st2)
        | (Inr u, st2) \<Rightarrow>
            (case injectScopeParameters (bindScopeResources st2) of
               (Inl e, st4) \<Rightarrow> (Inl e, st4)
             | (Inr injectedObjects, sc4, w4) \<Rightarrow>
                 (case kernel_restore w4 of
                    Inl e \<Rightarrow> (Inl e, sc4, w4)
                  | Inr w5 \<Rightarrow> (Inr injectedObjects, sc4, w5))))"

definition run :: "Scope \<Rightarrow> (val list \<Rightarrow> task_result) \<Rightarrow> world \<Rightarrow> outcome \<times> Scope \<times> world" where
  "run sc task w =
     (case resolution (sc, w) of
        (Inl e, sc', w') \<Rightarrow> (Thrown e, sc', w')
      | (Inr injectedObjects, sc', w') \<Rightarrow>
          (case Promise_using (disposers sc')
                  (\<lambda>w. (task injectedObjects, w\<lparr>trace := trace w @ [Invoke injectedObjects]\<rparr>)) w' of
             (r, w'') \<Rightarrow> (r, sc', w'')))"

section \<open>Container\<close>

text \<open>
  The container's list of scope resources and of constants, and the operations that fill the
  registry. \<open>decorateInjectable\<close> and the logging have no effect on resolution and are left
  out; an absent \<open>bClass\<close> is \<open>None\<close>.
\<close>

record Container =
  container_scopeResources :: "ScopeResource list"
  boundConstants :: "ident list"

definition bindTransientClass ::
    "ctor \<Rightarrow> ctor option \<Rightarrow> Container \<times> world \<Rightarrow> Container \<times> world" where
  "bindTransientClass aClass bClass cw =
     (case cw of (c, w) \<Rightarrow>
        let bClass' = (case bClass of None \<Rightarrow> aClass | Some b \<Rightarrow> b);
            w' = (if kernel_isBound (ClsId aClass) w then kernel_unbind (ClsId aClass) w else w)
        in (c, kernel_bind (ClsId aClass) (ToClass bClass') w'))"

definition bindScopeResource ::
    "ctor \<Rightarrow> (val \<Rightarrow> error + disposer) \<Rightarrow> Container \<times> world \<Rightarrow> Container \<times> world" where
  "bindScopeResource aClass factory cw =
     (case cw of (c, w) \<Rightarrow>
        (c\<lparr>container_scopeResources :=
             container_scopeResources c @ [\<lparr>constructor = aClass, disposerFactory = factory\<rparr>]\<rparr>, w))"

definition bindConstant :: "ident \<Rightarrow> val \<Rightarrow> Container \<times> world \<Rightarrow> Container \<times> world" where
  "bindConstant i value cw =
     (case cw of (c, w) \<Rightarrow>
        let w' = (if kernel_isBound i w then kernel_unbind i w else w)
        in (c\<lparr>boundConstants := boundConstants c @ [i]\<rparr>, kernel_bind i (ToConstantValue value) w'))"

definition scope :: "Container \<Rightarrow> Scope" where
  "scope c =
     \<lparr>scopeResources = container_scopeResources c, objToBindScopeContext = None,
      injections = [], disposers = []\<rparr>"

text \<open>The events a step added to the log.\<close>

definition events :: "world \<Rightarrow> world \<Rightarrow> event list" where
  "events w w' = drop (length (trace w)) (trace w')"

section \<open>Reading the log\<close>

text \<open>
  The names of the resources whose disposer was made, of those released, the instances
  handed out, and the argument lists the task was applied to, each in the order of the log.
\<close>

fun acquired :: "event list \<Rightarrow> string list" where
  "acquired [] = []"
| "acquired (Acquire name v # es) = name # acquired es"
| "acquired (e # es) = acquired es"

fun released :: "event list \<Rightarrow> string list" where
  "released [] = []"
| "released (Release name v # es) = name # released es"
| "released (e # es) = released es"

fun provided :: "event list \<Rightarrow> (string \<times> val) list" where
  "provided [] = []"
| "provided (Provide name v # es) = (name, v) # provided es"
| "provided (e # es) = provided es"

fun invoked :: "event list \<Rightarrow> val list list" where
  "invoked [] = []"
| "invoked (Invoke args # es) = args # invoked es"
| "invoked (e # es) = invoked es"

text \<open>
  In a well-formed dictionary every dynamic value of a scope resource points to the
  instance binding of its name, and that binding is a singleton: what
  \<open>bindScopeResources\<close> installs.
\<close>

definition wf_bnd :: "(ident \<times> producer) list \<Rightarrow> bool" where
  "wf_bnd bnd = (\<forall>i name ibn r. map_of bnd i = Some (ToScopeResource name ibn r) \<longrightarrow>
      ibn = StrId (name @ ''@instance'') \<and> (\<exists>c. map_of bnd ibn = Some (ToSingleton c)))"

text \<open>An object made while the allocator went from \<open>lo\<close> to \<open>hi\<close>.\<close>

fun fresh :: "nat \<Rightarrow> nat \<Rightarrow> val \<Rightarrow> bool" where
  "fresh lo hi (VObj r c args) = (lo \<le> r \<and> r < hi)"
| "fresh lo hi (VConst s) = False"

text \<open>
  What a resolution may change, from the state \<open>st\<close> to the state \<open>st'\<close>: it leaves the
  dictionary, the snapshots and the declarations of the scope alone; it appends events
  \<open>es\<close>, none of them a release or an invocation, and disposers \<open>ds\<close>, one for each
  \<open>Acquire\<close> event, under names that are new and distinct; the allocator only grows; the
  cache keeps what it holds, is untouched at the identifiers under resolution, and what it
  gains is fresh; an instance handed out comes from a dynamic value of the dictionary, in a
  well-formed dictionary is the one cached at the instance binding, and is handed out under
  a name that is truthy in the disposer set.
\<close>

definition resolved :: "(ident \<times> producer) list \<Rightarrow> ident list \<Rightarrow> Scope \<times> world \<Rightarrow> Scope \<times> world \<Rightarrow> bool" where
  "resolved bnd stk st st' =
     (\<exists>es ds.
        snd st' = (snd st)\<lparr>cache := cache (snd st'), nextRef := nextRef (snd st'),
                           heap := heap (snd st'), trace := trace (snd st) @ es\<rparr>
      \<and> fst st' = (fst st)\<lparr>disposers := disposers (fst st) @ ds\<rparr>
      \<and> nextRef (snd st) \<le> nextRef (snd st')
      \<and> released es = [] \<and> invoked es = [] \<and> acquired es = map fst ds
      \<and> distinct (map fst ds) \<and> set (map fst ds) \<inter> fst ` set (disposers (fst st)) = {}
      \<and> (\<forall>k \<in> set stk. map_of (cache (snd st')) k = map_of (cache (snd st)) k)
      \<and> (\<forall>k v. map_of (cache (snd st)) k = Some v \<longrightarrow> map_of (cache (snd st')) k = Some v)
      \<and> (\<forall>k v. map_of (cache (snd st')) k = Some v \<longrightarrow>
            map_of (cache (snd st)) k = Some v \<or> fresh (nextRef (snd st)) (nextRef (snd st')) v)
      \<and> (\<forall>(n, v) \<in> set (provided es). \<exists>i ibn r. map_of bnd i = Some (ToScopeResource n ibn r))
      \<and> (wf_bnd bnd \<longrightarrow> (\<forall>(n, v) \<in> set (provided es).
            map_of (cache (snd st')) (StrId (n @ ''@instance'')) = Some v))
      \<and> (\<forall>(n, v) \<in> set (provided es). truthy (disposers (fst st')) n))"

text \<open>
  A plain dictionary holds no dynamic value of a scope resource: it is what
  \<open>bindTransientClass\<close> and \<open>bindConstant\<close> build. After \<open>bindScopeResources\<close> the
  dictionary is well formed and nothing is cached at the instance bindings.
\<close>

fun dynamic :: "producer \<Rightarrow> bool" where
  "dynamic (ToScopeResource name ibn r) = True"
| "dynamic p = False"

definition plain :: "(ident \<times> producer) list \<Rightarrow> bool" where
  "plain bnd = (\<forall>p \<in> snd ` set bnd. \<not> dynamic p)"

definition overlay_ok :: "world \<Rightarrow> bool" where
  "overlay_ok w =
     (\<forall>i name ibn r. map_of (bindings w) i = Some (ToScopeResource name ibn r) \<longrightarrow>
        ibn = StrId (name @ ''@instance'')
        \<and> (\<exists>c. map_of (bindings w) ibn = Some (ToSingleton c))
        \<and> map_of (cache w) ibn = None)"

text \<open>
  The \<open>Release\<close> events that \<open>dispose\<close> appends, and the names of the disposers whose
  acquisition was fulfilled.
\<close>

fun releases :: "(string \<times> disposer) list \<Rightarrow> event list" where
  "releases [] = []"
| "releases ((name, d) # rest) =
     (case promise d of Inl e \<Rightarrow> releases rest | Inr resource \<Rightarrow> Release name resource # releases rest)"

fun fulfilled :: "(string \<times> disposer) list \<Rightarrow> string list" where
  "fulfilled [] = []"
| "fulfilled ((name, d) # rest) =
     (case promise d of Inl e \<Rightarrow> fulfilled rest | Inr resource \<Rightarrow> name # fulfilled rest)"

text \<open>The state in which \<open>injectScopeParameters\<close> starts: the registry with the overlay.\<close>

definition overlay :: "Scope \<times> world \<Rightarrow> Scope \<times> world" where
  "overlay st =
     (case st of (sc, w) \<Rightarrow> bindScopeResources (snd (bindScopeContext (sc, kernel_snapshot w))))"

section \<open>Example worlds\<close>

definition emptyWorld :: world where
  "emptyWorld = \<lparr>bindings = [], cache = [], snapshots = [], paramtypes = [], nextRef = 0,
     heap = (\<lambda>r. Map.empty), trace = []\<rparr>"

text \<open>
  The classes of the repository's test: \<open>Bar\<close> takes a \<open>Foo\<close>, \<open>Baz\<close> and \<open>BazBaz\<close> take
  the scope resource \<open>Resource\<close>. A disposer factory whose acquisition succeeds, one whose
  acquisition is rejected, and one that throws.
\<close>

definition Foo :: ctor where "Foo = Ctor ''Foo'' 1"
definition Bar :: ctor where "Bar = Ctor ''Bar'' 2"
definition Resource :: ctor where "Resource = Ctor ''Resource'' 3"
definition Baz :: ctor where "Baz = Ctor ''Baz'' 4"
definition BazBaz :: ctor where "BazBaz = Ctor ''BazBaz'' 5"

definition acquireOk :: "val \<Rightarrow> error + disposer" where
  "acquireOk resource = Inr (Disposer (Inr resource))"

definition acquireRejects :: "val \<Rightarrow> error + disposer" where
  "acquireRejects resource = Inr (Disposer (Inl (UserError ''acquire'')))"

definition acquireThrows :: "val \<Rightarrow> error + disposer" where
  "acquireThrows resource = Inl (UserError ''acquire'')"

definition testWorld :: world where
  "testWorld = emptyWorld\<lparr>paramtypes :=
     [(Bar, [ClsId Foo]), (Baz, [ClsId Resource]), (BazBaz, [ClsId Resource])]\<rparr>"

definition testSetup :: "(val \<Rightarrow> error + disposer) \<Rightarrow> Container \<times> world" where
  "testSetup factory =
     bindConstant (StrId ''Constant'') (VConst ''constant'')
       (bindScopeResource Resource factory
         (bindTransientClass BazBaz None
           (bindTransientClass Baz None
             (bindTransientClass Bar None
               (bindTransientClass Foo None
                 (\<lparr>container_scopeResources = [], boundConstants = []\<rparr>, testWorld))))))"

definition taskOk :: "val list \<Rightarrow> task_result" where
  "taskOk args = Returns (VConst ''done'')"

text \<open>
  The world and the scopes of the examples: two consumers of the resource; the same with a
  rejected acquisition; a declared identifier that is not bound; a context object whose key
  \<open>a\<close> was written twice, and one with the key \<open>hasOwnProperty\<close>; tasks that throw, resolve
  and reject; a second resource, \<open>Pool\<close>, whose disposer factory throws, or whose
  acquisition is rejected; a resource class named \<open>valueOf\<close>.
\<close>

definition Pool :: ctor where "Pool = Ctor ''Pool'' 6"

definition okWorld :: world where
  "okWorld = snd (testSetup acquireOk)"

definition okScope :: Scope where
  "okScope = inject [ClsId Baz, ClsId BazBaz] (scope (fst (testSetup acquireOk)))"

definition rejWorld :: world where
  "rejWorld = snd (testSetup acquireRejects)"

definition rejScope :: Scope where
  "rejScope = inject [ClsId Baz, ClsId BazBaz] (scope (fst (testSetup acquireRejects)))"

definition missingScope :: Scope where
  "missingScope = inject [ClsId Baz, StrId ''Missing''] (scope (fst (testSetup acquireOk)))"



definition shadowing :: "(string, val) alist" where
  "shadowing =
     DAList.update ''b'' (VConst ''2'')
       (DAList.update ''hasOwnProperty'' (VConst ''1'') DAList.empty)"

definition shadowScope :: Scope where
  "shadowScope = scope_context shadowing okScope"

definition taskThrows :: "val list \<Rightarrow> task_result" where
  "taskThrows args = Throws (UserError ''task'')"

definition taskResolves :: "val list \<Rightarrow> task_result" where
  "taskResolves args = Resolves (VConst ''later'')"

definition taskRejects :: "val list \<Rightarrow> task_result" where
  "taskRejects args = Rejects (UserError ''task'')"

definition mixScope :: Scope where
  "mixScope =
     inject [ClsId Resource, ClsId Pool]
       (scope (fst (bindScopeResource Pool acquireRejects (testSetup acquireOk))))"

definition ValueOf :: ctor where "ValueOf = Ctor ''valueOf'' 7"

definition inheritedScope :: Scope where
  "inheritedScope =
     inject [ClsId ValueOf]
       (scope (fst (bindScopeResource ValueOf acquireOk (testSetup acquireOk))))"

definition throwScope :: Scope where
  "throwScope =
     inject [ClsId Resource, ClsId Pool]
       (scope (fst (bindScopeResource Pool acquireThrows (testSetup acquireOk))))"

section \<open>Properties of resolution\<close>

lemma acquired_append [simp]: "acquired (xs @ ys) = acquired xs @ acquired ys"
  by (induction xs rule: acquired.induct) auto
lemma released_append [simp]: "released (xs @ ys) = released xs @ released ys"
  by (induction xs rule: released.induct) auto
lemma provided_append [simp]: "provided (xs @ ys) = provided xs @ provided ys"
  by (induction xs rule: provided.induct) auto
lemma invoked_append [simp]: "invoked (xs @ ys) = invoked xs @ invoked ys"
  by (induction xs rule: invoked.induct) auto

lemma fresh_mono: "fresh lo hi v \<Longrightarrow> lo' \<le> lo \<Longrightarrow> hi \<le> hi' \<Longrightarrow> fresh lo' hi' v"
  by (cases v) auto

lemma resolved_refl: "resolved bnd stk st st"
  unfolding resolved_def
  by (rule exI [of _ "[]"], rule exI [of _ "[]"]) simp

lemma resolved_stk: "resolved bnd (i # stk) st st' \<Longrightarrow> resolved bnd stk st st'"
  unfolding resolved_def by (elim exE conjE, intro exI conjI) (assumption | simp)+

lemma resolved_trans:
  assumes "resolved bnd stk st st'" and "resolved bnd stk st' st''"
  shows "resolved bnd stk st st''"
proof -
  from assms(1) obtain es ds where a:
    "snd st' = (snd st)\<lparr>cache := cache (snd st'), nextRef := nextRef (snd st'),
                           heap := heap (snd st'), trace := trace (snd st) @ es\<rparr>"
    "fst st' = (fst st)\<lparr>disposers := disposers (fst st) @ ds\<rparr>"
    "nextRef (snd st) \<le> nextRef (snd st')"
    "released es = []" "invoked es = []" "acquired es = map fst ds"
    "distinct (map fst ds)" "set (map fst ds) \<inter> fst ` set (disposers (fst st)) = {}"
    "\<forall>k \<in> set stk. map_of (cache (snd st')) k = map_of (cache (snd st)) k"
    "\<forall>k v. map_of (cache (snd st)) k = Some v \<longrightarrow> map_of (cache (snd st')) k = Some v"
    "\<forall>k v. map_of (cache (snd st')) k = Some v \<longrightarrow>
            map_of (cache (snd st)) k = Some v \<or> fresh (nextRef (snd st)) (nextRef (snd st')) v"
    "wf_bnd bnd \<longrightarrow> (\<forall>(n, v) \<in> set (provided es).
            map_of (cache (snd st')) (StrId (n @ ''@instance'')) = Some v)"
    "\<forall>(n, v) \<in> set (provided es). \<exists>i ibn r. map_of bnd i = Some (ToScopeResource n ibn r)"
    "\<forall>(n, v) \<in> set (provided es). truthy (disposers (fst st')) n"
    unfolding resolved_def by blast
  from assms(2) obtain es' ds' where b:
    "snd st'' = (snd st')\<lparr>cache := cache (snd st''), nextRef := nextRef (snd st''),
                           heap := heap (snd st''), trace := trace (snd st') @ es'\<rparr>"
    "fst st'' = (fst st')\<lparr>disposers := disposers (fst st') @ ds'\<rparr>"
    "nextRef (snd st') \<le> nextRef (snd st'')"
    "released es' = []" "invoked es' = []" "acquired es' = map fst ds'"
    "distinct (map fst ds')" "set (map fst ds') \<inter> fst ` set (disposers (fst st')) = {}"
    "\<forall>k \<in> set stk. map_of (cache (snd st'')) k = map_of (cache (snd st')) k"
    "\<forall>k v. map_of (cache (snd st')) k = Some v \<longrightarrow> map_of (cache (snd st'')) k = Some v"
    "\<forall>k v. map_of (cache (snd st'')) k = Some v \<longrightarrow>
            map_of (cache (snd st')) k = Some v \<or> fresh (nextRef (snd st')) (nextRef (snd st'')) v"
    "wf_bnd bnd \<longrightarrow> (\<forall>(n, v) \<in> set (provided es').
            map_of (cache (snd st'')) (StrId (n @ ''@instance'')) = Some v)"
    "\<forall>(n, v) \<in> set (provided es'). \<exists>i ibn r. map_of bnd i = Some (ToScopeResource n ibn r)"
    "\<forall>(n, v) \<in> set (provided es'). truthy (disposers (fst st'')) n"
    unfolding resolved_def by blast
  have tr: "trace (snd st') = trace (snd st) @ es"
    by (subst a(1)) simp
  have dsp: "disposers (fst st') = disposers (fst st) @ ds"
    by (subst a(2)) simp
  have 1: "snd st'' = (snd st)\<lparr>cache := cache (snd st''), nextRef := nextRef (snd st''),
                           heap := heap (snd st''), trace := trace (snd st) @ (es @ es')\<rparr>"
    by (subst b(1), subst a(1)) (simp add: tr)
  have 2: "fst st'' = (fst st)\<lparr>disposers := disposers (fst st) @ (ds @ ds')\<rparr>"
    by (subst b(2), subst a(2)) (simp add: dsp)
  have 3: "distinct (map fst (ds @ ds'))"
    using a(7) b(7) b(8) dsp by auto
  have 4: "set (map fst (ds @ ds')) \<inter> fst ` set (disposers (fst st)) = {}"
    using a(8) b(8) dsp by auto
  have 5: "\<forall>k v. map_of (cache (snd st'')) k = Some v \<longrightarrow>
            map_of (cache (snd st)) k = Some v \<or> fresh (nextRef (snd st)) (nextRef (snd st'')) v"
    using a(11) b(11) a(3) b(3) by (meson fresh_mono le_refl)
  have 6: "wf_bnd bnd \<longrightarrow> (\<forall>(n, v) \<in> set (provided (es @ es')).
            map_of (cache (snd st'')) (StrId (n @ ''@instance'')) = Some v)"
    using a(12) b(12) b(10) by auto
  have grow: "truthy (disposers (fst st')) n \<Longrightarrow> truthy (disposers (fst st'')) n" for n
    unfolding truthy_def arg_cong [OF b(2), of disposers] by auto
  have 7: "\<forall>(n, v) \<in> set (provided (es @ es')). truthy (disposers (fst st'')) n"
    using a(14) b(14) grow by auto
  show ?thesis
    unfolding resolved_def
    apply (rule exI [of _ "es @ es'"], rule exI [of _ "ds @ ds'"])
    apply (intro conjI)
    using 1 apply assumption
    using 2 apply assumption
    using a(3) b(3) apply simp
    using a(4) b(4) apply simp
    using a(5) b(5) apply simp
    using a(6) b(6) apply simp
    using 3 apply assumption
    using 4 apply assumption
    using a(9) b(9) apply simp
    using a(10) b(10) apply simp
    using 5 apply assumption
    using a(13) b(13) apply auto[1]
    using 6 apply assumption
    using 7 apply assumption
    done
qed


declare resolve.simps [simp del]

lemma singleton_cached:
  assumes "map_of bnd i = Some (ToSingleton c)"
    and "resolve bnd stk i (sc, w) = (Inr v, sc', w')"
  shows "map_of (cache w') i = Some v"
  using assms(2)
  by (subst (asm) resolve.simps)
     (auto simp: assms(1) construct_def split: if_splits option.splits sum.splits prod.splits)

lemma resolved_construct:
  "resolved bnd stk (sc, w) (sc, snd (construct c args w))"
  unfolding resolved_def construct_def
  by (rule exI [of _ "[]"], rule exI [of _ "[]"]) simp

lemma resolved_construct_cached:
  assumes "map_of (cache w) i = None" and "i \<notin> set stk"
    and "construct c args w = (obj, w')"
  shows "resolved bnd stk (sc, w) (sc, w'\<lparr>cache := (i, obj) # cache w'\<rparr>)"
  using assms unfolding resolved_def construct_def
  by (intro exI [of _ "[]"]) auto

lemma resolved_provide:
  assumes "wf_bnd bnd \<longrightarrow> map_of (cache w) (StrId (name @ ''@instance'')) = Some instance"
    and "map_of bnd i = Some (ToScopeResource name ibn resource)"
    and "truthy (disposers sc) name"
  shows "resolved bnd stk (sc, w) (sc, w\<lparr>trace := trace w @ [Provide name instance]\<rparr>)"
  using assms unfolding resolved_def
  by (intro exI [of _ "[Provide name instance]"] exI [of _ "[]"]) auto

lemma resolved_acquire:
  assumes "wf_bnd bnd \<longrightarrow> map_of (cache w) (StrId (name @ ''@instance'')) = Some instance"
    and "map_of bnd i = Some (ToScopeResource name ibn resource)"
    and "\<not> truthy (disposers sc) name"
  shows "resolved bnd stk (sc, w)
           (sc\<lparr>disposers := disposers sc @ [(name, d)]\<rparr>,
            w\<lparr>trace := trace w @ [Acquire name instance, Provide name instance]\<rparr>)"
  using assms unfolding resolved_def
  by (intro exI [of _ "[Acquire name instance, Provide name instance]"] exI [of _ "[(name, d)]"])
     (auto simp: map_of_eq_None_iff truthy_def)

lemma resolve_resolved:
  "resolved bnd stk st (snd (resolve bnd stk i st))"
  "resolved bnd stk st (snd (resolve_all bnd stk ids st))"
proof (induction bnd stk i st and bnd stk ids st rule: resolve_resolve_all.induct)
  case (1 bnd stk i sc w)
  show ?case
  proof (cases "i \<in> set stk")
    case True
    then show ?thesis by (subst resolve.simps) (simp add: resolved_refl)
  next
    case notin: False
    show ?thesis
    proof (cases "map_of bnd i")
      case None
      with notin show ?thesis by (subst resolve.simps) (simp add: resolved_refl)
    next
      case (Some p)
      show ?thesis
      proof (cases p)
        case (ToConstantValue v)
        with notin Some show ?thesis by (subst resolve.simps) (simp add: resolved_refl)
      next
        case (ToClass c)
        note ih = "1.IH"(1) [OF notin Some ToClass]
        obtain r sc' w' where res: "resolve_all bnd (i # stk) (paramsOf w c) (sc, w) = (r, sc', w')"
          by (metis prod_cases3)
        from ih res have a: "resolved bnd stk (sc, w) (sc', w')"
          by (auto dest: resolved_stk)
        show ?thesis
        proof (cases r)
          case (Inl e)
          with notin Some ToClass res a show ?thesis
            by (subst resolve.simps) simp
        next
          case (Inr args)
          have "resolved bnd stk (sc, w) (sc', snd (construct c args w'))"
            using a resolved_construct by (rule resolved_trans)
          with notin Some ToClass res Inr show ?thesis
            by (subst resolve.simps) (auto split: prod.splits)
        qed
      next
        case (ToSingleton c)
        show ?thesis
        proof (cases "map_of (cache w) i")
          case (Some obj)
          with notin \<open>map_of bnd i = Some p\<close> ToSingleton show ?thesis
            by (subst resolve.simps) (simp add: resolved_refl)
        next
          case None
          note ih = "1.IH"(2) [OF notin \<open>map_of bnd i = Some p\<close> ToSingleton None]
          obtain r sc' w' where res: "resolve_all bnd (i # stk) (paramsOf w c) (sc, w) = (r, sc', w')"
            by (metis prod_cases3)
          from ih res have a': "resolved bnd (i # stk) (sc, w) (sc', w')" by simp
          then have a: "resolved bnd stk (sc, w) (sc', w')" by (rule resolved_stk)
          from a' have unch: "map_of (cache w') i = None"
            unfolding resolved_def using None by auto
          show ?thesis
          proof (cases r)
            case (Inl e)
            with notin \<open>map_of bnd i = Some p\<close> ToSingleton None res a show ?thesis
              by (subst resolve.simps) simp
          next
            case (Inr args)
            obtain obj w'' where con: "construct c args w' = (obj, w'')"
              by (metis surj_pair)
            have "resolved bnd stk (sc', w') (sc', w''\<lparr>cache := (i, obj) # cache w''\<rparr>)"
              using unch notin con by (rule resolved_construct_cached)
            with a have "resolved bnd stk (sc, w) (sc', w''\<lparr>cache := (i, obj) # cache w''\<rparr>)"
              by (rule resolved_trans)
            with notin \<open>map_of bnd i = Some p\<close> ToSingleton None res Inr con show ?thesis
              by (subst resolve.simps) simp
          qed
        qed
      next
        case (ToScopeResource name ibn resource)
        note ih = "1.IH"(3) [OF notin Some ToScopeResource]
        from Some ToScopeResource
        have bound: "map_of bnd i = Some (ToScopeResource name ibn resource)" by simp
        obtain r sc' w' where res: "resolve bnd (i # stk) ibn (sc, w) = (r, sc', w')"
          by (metis prod_cases3)
        from ih res have a: "resolved bnd stk (sc, w) (sc', w')"
          by (auto dest: resolved_stk)
        show ?thesis
        proof (cases r)
          case (Inl e)
          with notin Some ToScopeResource res a show ?thesis
            by (subst resolve.simps) simp
        next
          case (Inr inst)
          have cached: "wf_bnd bnd \<longrightarrow> map_of (cache w') (StrId (name @ ''@instance'')) = Some inst"
          proof
            assume "wf_bnd bnd"
            with Some ToScopeResource obtain c where
              "ibn = StrId (name @ ''@instance'')" "map_of bnd ibn = Some (ToSingleton c)"
              unfolding wf_bnd_def by blast
            with res Inr show "map_of (cache w') (StrId (name @ ''@instance'')) = Some inst"
              using singleton_cached by blast
          qed
          show ?thesis
          proof (cases "truthy (disposers sc') name")
            case True
            have "resolved bnd stk (sc, w) (sc', w'\<lparr>trace := trace w' @ [Provide name inst]\<rparr>)"
              using a resolved_provide [OF cached bound True] by (rule resolved_trans)
            with notin \<open>map_of bnd i = Some p\<close> ToScopeResource res Inr True show ?thesis
              by (subst resolve.simps) simp
          next
            case False
            show ?thesis
            proof (cases "disposerFactory resource inst")
              case (Inl e)
              with notin \<open>map_of bnd i = Some p\<close> ToScopeResource res Inr False a show ?thesis
                by (subst resolve.simps) simp
            next
              case (Inr d)
              have "resolved bnd stk (sc, w)
                      (sc'\<lparr>disposers := disposers sc' @ [(name, d)]\<rparr>,
                       w'\<lparr>trace := trace w' @ [Acquire name inst, Provide name inst]\<rparr>)"
                using a resolved_acquire [OF cached bound False] by (rule resolved_trans)
              with notin \<open>map_of bnd i = Some p\<close> ToScopeResource res \<open>r = Inr inst\<close> False Inr
              show ?thesis
                by (subst resolve.simps) simp
            qed
          qed
        qed
      qed
    qed
  qed
next
  case (2 bnd stk st)
  show ?case by (simp add: resolved_refl)
next
  case (3 bnd stk i rest st)
  obtain r st' where res: "resolve bnd stk i st = (r, st')"
    by (metis surj_pair)
  from "3.IH"(1) res have a: "resolved bnd stk st st'" by simp
  show ?case
  proof (cases r)
    case (Inl e)
    with res a show ?thesis by simp
  next
    case (Inr v)
    obtain r' st'' where res': "resolve_all bnd stk rest st' = (r', st'')"
      by (metis surj_pair)
    from "3.IH"(2) [OF res [symmetric, unfolded Inr] refl] res' have "resolved bnd stk st' st''"
      by simp
    with a have "resolved bnd stk st st''" by (rule resolved_trans)
    with res Inr res' show ?thesis by (simp split: sum.splits)
  qed
qed

lemma setOnce_frame: "snd (setOnce this name v w) = w\<lparr>heap := heap (snd (setOnce this name v w))\<rparr>"
  by (simp add: setOnce_def split: sum.splits bool.splits)

lemma forEach_setOnce_frame:
  "snd (forEach_setOnce v entries w) = w\<lparr>heap := heap (snd (forEach_setOnce v entries w))\<rparr>"
proof (induction v entries w rule: forEach_setOnce.induct)
  case (3 this c args name v rest w)
  obtain r w1 where s: "setOnce this name v w = (r, w1)" by (metis surj_pair)
  from setOnce_frame [of this name v w] s have w1: "w1 = w\<lparr>heap := heap w1\<rparr>" by simp
  show ?case
  proof (cases r)
    case (Inl e)
    with s w1 show ?thesis by simp
  next
    case (Inr x)
    from "3.IH" [OF s [symmetric, unfolded Inr] refl]
    have "snd (forEach_setOnce (VObj this c args) rest w1)
            = w1\<lparr>heap := heap (snd (forEach_setOnce (VObj this c args) rest w1))\<rparr>" .
    then have "snd (forEach_setOnce (VObj this c args) rest w1)
            = w\<lparr>heap := heap (snd (forEach_setOnce (VObj this c args) rest w1))\<rparr>"
      by (subst (asm) (2) w1) simp
    with s Inr show ?thesis by simp
  qed
qed simp_all

lemma resolve_ScopeContext:
  assumes "map_of bnd (ClsId ScopeContext) = Some (ToSingleton ScopeContext)"
    and "map_of (cache w) (ClsId ScopeContext) = None"
  shows "resolve bnd [] (ClsId ScopeContext) (sc, w) =
           (Inr (VObj (nextRef w) ScopeContext []), sc,
            w\<lparr>nextRef := Suc (nextRef w), heap := (heap w)(nextRef w := Map.empty),
              cache := (ClsId ScopeContext, VObj (nextRef w) ScopeContext []) # cache w\<rparr>)"
  using assms by (subst resolve.simps) (simp add: paramsOf_def construct_def)

lemma map_of_update: "map_of (AList.update k v al) = (map_of al)(k \<mapsto> v)"
  by (rule AList.update_conv')

lemma map_of_delete: "map_of (AList.delete k al) = (map_of al)(k := None)"
  by (rule AList.delete_conv')

lemma bindScopeContext_None:
  assumes "objToBindScopeContext sc = None"
  shows "bindScopeContext (sc, w) =
           (Inr (), sc, kernel_bind (ClsId ScopeContext) (ToSingleton ScopeContext) w)"
  using assms by (simp add: bindScopeContext_def)

lemma bindScopeContext_Some:
  assumes "objToBindScopeContext sc = Some entries"
  shows "bindScopeContext (sc, w) =
     (case forEach_setOnce (VObj (nextRef w) ScopeContext []) (DAList.impl_of entries)
             ((kernel_bind (ClsId ScopeContext) (ToSingleton ScopeContext) w)
                \<lparr>nextRef := Suc (nextRef w), heap := (heap w)(nextRef w := Map.empty),
                  cache := (ClsId ScopeContext, VObj (nextRef w) ScopeContext [])
                           # AList.delete (ClsId ScopeContext) (cache w)\<rparr>) of
        (r, w3) \<Rightarrow> (r, sc, w3))"
proof -
  let ?w1 = "kernel_bind (ClsId ScopeContext) (ToSingleton ScopeContext) w"
  have b: "map_of (bindings ?w1) (ClsId ScopeContext) = Some (ToSingleton ScopeContext)"
    by (simp add: kernel_bind_def map_of_update)
  have c: "map_of (cache ?w1) (ClsId ScopeContext) = None"
    by (simp add: kernel_bind_def map_of_delete)
  have "kernel_get (ClsId ScopeContext) (sc, ?w1) =
          (Inr (VObj (nextRef ?w1) ScopeContext []), sc,
            ?w1\<lparr>nextRef := Suc (nextRef ?w1), heap := (heap ?w1)(nextRef ?w1 := Map.empty),
              cache := (ClsId ScopeContext, VObj (nextRef ?w1) ScopeContext []) # cache ?w1\<rparr>)"
    unfolding kernel_get_def using resolve_ScopeContext [OF b c] by simp
  moreover have "nextRef ?w1 = nextRef w" "heap ?w1 = heap w"
    "cache ?w1 = AList.delete (ClsId ScopeContext) (cache w)"
    by (simp_all add: kernel_bind_def)
  ultimately show ?thesis
    using assms by (simp add: bindScopeContext_def Let_def)
qed

lemma bindScopeContext_frame:
  assumes "bindScopeContext (sc, w) = (r, sc', w')"
  shows "sc' = sc
    \<and> bindings w' = AList.update (ClsId ScopeContext) (ToSingleton ScopeContext) (bindings w)
    \<and> snapshots w' = snapshots w \<and> trace w' = trace w \<and> nextRef w \<le> nextRef w'"
proof (cases "objToBindScopeContext sc")
  case None
  from assms bindScopeContext_None [OF None, of w]
  show ?thesis by (auto simp: kernel_bind_def)
next
  case (Some entries)
  let ?w2 = "(kernel_bind (ClsId ScopeContext) (ToSingleton ScopeContext) w)
              \<lparr>nextRef := Suc (nextRef w), heap := (heap w)(nextRef w := Map.empty),
                cache := (ClsId ScopeContext, VObj (nextRef w) ScopeContext [])
                         # AList.delete (ClsId ScopeContext) (cache w)\<rparr>"
  let ?obj = "VObj (nextRef w) ScopeContext []"
  from assms bindScopeContext_Some [OF Some, of w]
  have eq: "sc' = sc" "w' = snd (forEach_setOnce ?obj (DAList.impl_of entries) ?w2)"
    by (auto split: prod.splits)
  have fr: "w' = ?w2\<lparr>heap := heap w'\<rparr>"
    unfolding eq(2) by (rule forEach_setOnce_frame)
  from arg_cong [OF fr, of bindings] arg_cong [OF fr, of snapshots]
    arg_cong [OF fr, of trace] arg_cong [OF fr, of nextRef]
  have "bindings w' = bindings ?w2" "snapshots w' = snapshots ?w2"
    "trace w' = trace ?w2" "nextRef w' = nextRef ?w2"
    by simp_all
  with eq(1) show ?thesis
    by (simp add: kernel_bind_def)
qed

lemma bindResource_frame:
  "snapshots (bindResource r w) = snapshots w" "trace (bindResource r w) = trace w"
  "nextRef (bindResource r w) = nextRef w" "paramtypes (bindResource r w) = paramtypes w"
  by (simp_all add: bindResource_def kernel_bind_def Let_def)

lemma fold_bindResource_frame:
  "snapshots (fold bindResource rs w) = snapshots w \<and> trace (fold bindResource rs w) = trace w
   \<and> nextRef (fold bindResource rs w) = nextRef w"
  by (induction rs arbitrary: w) (simp_all add: bindResource_frame)

lemma plain_overlay_ok: "plain (bindings w) \<Longrightarrow> overlay_ok w"
  unfolding plain_def overlay_ok_def by (force dest: map_of_SomeD)

lemma overlay_ok_bindResource:
  assumes "overlay_ok w"
  shows "overlay_ok (bindResource r w)"
  using assms unfolding overlay_ok_def bindResource_def Let_def kernel_bind_def
  by (auto simp: map_of_update map_of_delete split: if_splits)

lemma overlay_ok_fold: "overlay_ok w \<Longrightarrow> overlay_ok (fold bindResource rs w)"
  by (induction rs arbitrary: w) (simp_all add: overlay_ok_bindResource)

lemma overlay_ok_wf: "overlay_ok w \<Longrightarrow> wf_bnd (bindings w)"
  unfolding overlay_ok_def wf_bnd_def by blast

lemma set_update_subset: "set (AList.update k v al) \<subseteq> insert (k, v) (set al)"
  by (induction al) auto

lemma plain_update_singleton: "plain bnd \<Longrightarrow> plain (AList.update i (ToSingleton c) bnd)"
  unfolding plain_def using set_update_subset [of i "ToSingleton c" bnd] by fastforce

lemma resolved_frame:
  assumes "resolved bnd stk (sc, w) (sc', w')"
  shows "bindings w' = bindings w \<and> snapshots w' = snapshots w \<and> paramtypes w' = paramtypes w
    \<and> scopeResources sc' = scopeResources sc \<and> injections sc' = injections sc
    \<and> objToBindScopeContext sc' = objToBindScopeContext sc"
proof -
  from assms obtain es ds where
    w: "w' = w\<lparr>cache := cache w', nextRef := nextRef w', heap := heap w', trace := trace w @ es\<rparr>"
    and s: "sc' = sc\<lparr>disposers := disposers sc @ ds\<rparr>"
    unfolding resolved_def by auto
  from arg_cong [OF w, of bindings] arg_cong [OF w, of snapshots] arg_cong [OF w, of paramtypes]
    arg_cong [OF s, of scopeResources] arg_cong [OF s, of injections]
    arg_cong [OF s, of objToBindScopeContext]
  show ?thesis by simp
qed

lemma resolved_events:
  assumes "resolved bnd stk (sc, w) (sc', w')"
  obtains es ds where "trace w' = trace w @ es" and "disposers sc' = disposers sc @ ds"
    and "sc' = sc\<lparr>disposers := disposers sc @ ds\<rparr>"
    and "released es = []" and "invoked es = []" and "acquired es = map fst ds"
    and "distinct (map fst ds)" and "set (map fst ds) \<inter> fst ` set (disposers sc) = {}"
    and "nextRef w \<le> nextRef w'"
    and "\<forall>(n, v) \<in> set (provided es). \<exists>i ibn r. map_of bnd i = Some (ToScopeResource n ibn r)"
    and "wf_bnd bnd \<longrightarrow> (\<forall>(n, v) \<in> set (provided es).
            map_of (cache w') (StrId (n @ ''@instance'')) = Some v)"
    and "\<forall>k v. map_of (cache w') k = Some v \<longrightarrow>
            map_of (cache w) k = Some v \<or> fresh (nextRef w) (nextRef w') v"
proof -
  from assms obtain es ds where
    w: "w' = w\<lparr>cache := cache w', nextRef := nextRef w', heap := heap w', trace := trace w @ es\<rparr>"
    and s: "sc' = sc\<lparr>disposers := disposers sc @ ds\<rparr>"
    and rest: "released es = []" "invoked es = []" "acquired es = map fst ds"
     "distinct (map fst ds)" "set (map fst ds) \<inter> fst ` set (disposers sc) = {}"
     "nextRef w \<le> nextRef w'"
     "\<forall>(n, v) \<in> set (provided es). \<exists>i ibn r. map_of bnd i = Some (ToScopeResource n ibn r)"
     "wf_bnd bnd \<longrightarrow> (\<forall>(n, v) \<in> set (provided es).
            map_of (cache w') (StrId (n @ ''@instance'')) = Some v)"
     "\<forall>k v. map_of (cache w') k = Some v \<longrightarrow>
            map_of (cache w) k = Some v \<or> fresh (nextRef w) (nextRef w') v"
    unfolding resolved_def by auto
  from arg_cong [OF w, of trace] have "trace w' = trace w @ es" by simp
  moreover from arg_cong [OF s, of disposers] have "disposers sc' = disposers sc @ ds" by simp
  ultimately show ?thesis using that s rest by blast
qed

text \<open>The three ways the resolution phase of run can end.\<close>

lemma resolution_cases:
  obtains
    (context_failed) e w2 where
      "bindScopeContext (sc, kernel_snapshot w) = (Inl e, sc, w2)"
      "resolution (sc, w) = (Inl e, sc, w2)"
  | (inject_failed) w2 e sc4 w4 where
      "bindScopeContext (sc, kernel_snapshot w) = (Inr (), sc, w2)"
      "resolve_all (bindings (fold bindResource (scopeResources sc) w2)) [] (injections sc)
         (sc, fold bindResource (scopeResources sc) w2) = (Inl e, sc4, w4)"
      "resolution (sc, w) = (Inl e, sc4, w4)"
  | (resolved_all) w2 objs sc4 w4 where
      "bindScopeContext (sc, kernel_snapshot w) = (Inr (), sc, w2)"
      "resolve_all (bindings (fold bindResource (scopeResources sc) w2)) [] (injections sc)
         (sc, fold bindResource (scopeResources sc) w2) = (Inr objs, sc4, w4)"
      "resolution (sc, w) =
         (Inr objs, sc4, w4\<lparr>bindings := bindings w, cache := cache w, snapshots := snapshots w\<rparr>)"
proof -
  obtain r sc2 w2 where b: "bindScopeContext (sc, kernel_snapshot w) = (r, sc2, w2)"
    by (metis prod_cases3)
  from bindScopeContext_frame [OF b]
  have sc2: "sc2 = sc" and snap2: "snapshots w2 = (bindings w, cache w) # snapshots w"
    by (simp_all add: kernel_snapshot_def)
  show ?thesis
  proof (cases r)
    case (Inl e)
    with b sc2 have "resolution (sc, w) = (Inl e, sc, w2)"
      by (simp add: resolution_def)
    with b sc2 Inl show ?thesis using context_failed by simp
  next
    case (Inr u)
    let ?w3 = "fold bindResource (scopeResources sc) w2"
    obtain r4 sc4 w4 where i: "resolve_all (bindings ?w3) [] (injections sc) (sc, ?w3) = (r4, sc4, w4)"
      by (metis prod_cases3)
    have inj: "injectScopeParameters (bindScopeResources (sc, w2)) = (r4, sc4, w4)"
      using i by (simp add: injectScopeParameters_def bindScopeResources_def)
    show ?thesis
    proof (cases r4)
      case (Inl e)
      with b sc2 Inr inj have "resolution (sc, w) = (Inl e, sc4, w4)"
        by (simp add: resolution_def)
      with b sc2 Inr i Inl show ?thesis using inject_failed by simp
    next
      case objs: (Inr objs)
      have "resolved (bindings ?w3) [] (sc, ?w3) (sc4, w4)"
        using resolve_resolved(2) [of "bindings ?w3" "[]" "(sc, ?w3)" "injections sc"] i by simp
      from resolved_frame [OF this] have "snapshots w4 = snapshots ?w3" by simp
      with snap2 have "snapshots w4 = (bindings w, cache w) # snapshots w"
        by (simp add: fold_bindResource_frame)
      then have "kernel_restore w4 =
          Inr (w4\<lparr>bindings := bindings w, cache := cache w, snapshots := snapshots w\<rparr>)"
        by (simp add: kernel_restore_def)
      with b sc2 Inr inj objs have "resolution (sc, w) =
         (Inr objs, sc4, w4\<lparr>bindings := bindings w, cache := cache w, snapshots := snapshots w\<rparr>)"
        by (simp add: resolution_def)
      with b sc2 Inr i objs show ?thesis using resolved_all by simp
    qed
  qed
qed

lemma overlay_ok_after_binding:
  assumes "bindScopeContext (sc, kernel_snapshot w) = (r, sc2, w2)" and "plain (bindings w)"
  shows "overlay_ok (fold bindResource rs w2)"
proof -
  from bindScopeContext_frame [OF assms(1)]
  have "bindings w2 = AList.update (ClsId ScopeContext) (ToSingleton ScopeContext) (bindings w)"
    by (simp add: kernel_snapshot_def)
  with assms(2) have "plain (bindings w2)"
    by (simp add: plain_update_singleton)
  then have "overlay_ok w2" by (rule plain_overlay_ok)
  then show ?thesis by (rule overlay_ok_fold)
qed

text \<open>What injectScopeParameters leaves in the log and in the disposer set.\<close>

lemma injected_facts:
  assumes b: "bindScopeContext (sc, kernel_snapshot w) = (Inr (), sc, w2)"
    and i: "resolve_all (bindings (fold bindResource (scopeResources sc) w2)) [] (injections sc)
         (sc, fold bindResource (scopeResources sc) w2) = (r4, sc4, w4)"
  obtains es ds where "trace w4 = trace w @ es" and "sc4 = sc\<lparr>disposers := disposers sc @ ds\<rparr>"
    and "released es = []" and "invoked es = []" and "acquired es = map fst ds"
    and "distinct (map fst ds)" and "set (map fst ds) \<inter> fst ` set (disposers sc) = {}"
    and "nextRef w \<le> nextRef w4"
    and "plain (bindings w) \<longrightarrow> (\<forall>(n, v) \<in> set (provided es). fresh (nextRef w) (nextRef w4) v)"
    and "plain (bindings w) \<longrightarrow>
           (\<forall>n v v'. (n, v) \<in> set (provided es) \<longrightarrow> (n, v') \<in> set (provided es) \<longrightarrow> v = v')"
proof -
  let ?w3 = "fold bindResource (scopeResources sc) w2"
  from bindScopeContext_frame [OF b]
  have w2: "trace w2 = trace w" "nextRef w \<le> nextRef w2"
    by (simp_all add: kernel_snapshot_def)
  have w3: "trace ?w3 = trace w" "nextRef w \<le> nextRef ?w3"
    using w2 by (simp_all add: fold_bindResource_frame)
  have ok: "plain (bindings w) \<longrightarrow> overlay_ok ?w3"
    using overlay_ok_after_binding [OF b] by simp
  have res: "resolved (bindings ?w3) [] (sc, ?w3) (sc4, w4)"
    using resolve_resolved(2) [of "bindings ?w3" "[]" "(sc, ?w3)" "injections sc"] i
    by simp
  from res show ?thesis
  proof (rule resolved_events)
    fix es ds
    assume h: "trace w4 = trace ?w3 @ es" "sc4 = sc\<lparr>disposers := disposers sc @ ds\<rparr>"
      "released es = []" "invoked es = []" "acquired es = map fst ds"
      "distinct (map fst ds)" "set (map fst ds) \<inter> fst ` set (disposers sc) = {}"
      "nextRef ?w3 \<le> nextRef w4"
      "\<forall>(n, v) \<in> set (provided es). \<exists>i ibn r. map_of (bindings ?w3) i = Some (ToScopeResource n ibn r)"
      "wf_bnd (bindings ?w3) \<longrightarrow> (\<forall>(n, v) \<in> set (provided es).
            map_of (cache w4) (StrId (n @ ''@instance'')) = Some v)"
      "\<forall>k v. map_of (cache w4) k = Some v \<longrightarrow>
            map_of (cache ?w3) k = Some v \<or> fresh (nextRef ?w3) (nextRef w4) v"
    have cached: "plain (bindings w) \<longrightarrow> (\<forall>(n, v) \<in> set (provided es).
            map_of (cache w4) (StrId (n @ ''@instance'')) = Some v)"
      using h(10) ok overlay_ok_wf by blast
    have same: "plain (bindings w) \<longrightarrow>
           (\<forall>n v v'. (n, v) \<in> set (provided es) \<longrightarrow> (n, v') \<in> set (provided es) \<longrightarrow> v = v')"
    proof (intro impI allI)
      fix n v v'
      assume p: "plain (bindings w)"
        and a1: "(n, v) \<in> set (provided es)" and a2: "(n, v') \<in> set (provided es)"
      from cached p a1 have "map_of (cache w4) (StrId (n @ ''@instance'')) = Some v" by blast
      moreover from cached p a2 have "map_of (cache w4) (StrId (n @ ''@instance'')) = Some v'"
        by blast
      ultimately show "v = v'" by simp
    qed
    have fr: "plain (bindings w) \<longrightarrow> (\<forall>(n, v) \<in> set (provided es). fresh (nextRef w) (nextRef w4) v)"
    proof (intro impI ballI, clarify)
      fix n v
      assume p: "plain (bindings w)" and nv: "(n, v) \<in> set (provided es)"
      from nv h(9) obtain i ibn r where
        "map_of (bindings ?w3) i = Some (ToScopeResource n ibn r)" by blast
      with ok p have "map_of (cache ?w3) (StrId (n @ ''@instance'')) = None"
        unfolding overlay_ok_def by blast
      moreover from cached p nv have "map_of (cache w4) (StrId (n @ ''@instance'')) = Some v"
        by blast
      ultimately have "fresh (nextRef ?w3) (nextRef w4) v"
        using h(11) by force
      then show "fresh (nextRef w) (nextRef w4) v"
        using w3(2) by (rule fresh_mono) simp
    qed
    show ?thesis
      using that [of es ds] h w3 same fr by simp
  qed
qed

text \<open>What the resolution phase leaves in the log and in the disposer set, however it ends.\<close>

lemma resolution_facts:
  assumes "resolution (sc, w) = (r, sc', w')"
  obtains es ds where "trace w' = trace w @ es" and "sc' = sc\<lparr>disposers := disposers sc @ ds\<rparr>"
    and "released es = []" and "invoked es = []" and "acquired es = map fst ds"
    and "distinct (map fst ds)" and "set (map fst ds) \<inter> fst ` set (disposers sc) = {}"
    and "nextRef w \<le> nextRef w'"
    and "plain (bindings w) \<longrightarrow> (\<forall>(n, v) \<in> set (provided es). fresh (nextRef w) (nextRef w') v)"
    and "plain (bindings w) \<longrightarrow>
           (\<forall>n v v'. (n, v) \<in> set (provided es) \<longrightarrow> (n, v') \<in> set (provided es) \<longrightarrow> v = v')"
proof (cases rule: resolution_cases [of sc w])
  case (context_failed e w2)
  from bindScopeContext_frame [OF context_failed(1)]
  have "trace w2 = trace w" "nextRef w \<le> nextRef w2" by (simp_all add: kernel_snapshot_def)
  with assms context_failed(2) show ?thesis
    using that [of "[]" "[]"] by simp
next
  case (inject_failed w2 e sc4 w4)
  from assms inject_failed(3) have eq: "sc' = sc4" "w' = w4" by simp_all
  show ?thesis
  proof (rule injected_facts [OF inject_failed(1,2)])
    fix es ds
    assume h: "trace w4 = trace w @ es" "sc4 = sc\<lparr>disposers := disposers sc @ ds\<rparr>"
      "released es = []" "invoked es = []" "acquired es = map fst ds"
      "distinct (map fst ds)" "set (map fst ds) \<inter> fst ` set (disposers sc) = {}"
      "nextRef w \<le> nextRef w4"
      "plain (bindings w) \<longrightarrow> (\<forall>(n, v) \<in> set (provided es). fresh (nextRef w) (nextRef w4) v)"
      "plain (bindings w) \<longrightarrow>
         (\<forall>n v v'. (n, v) \<in> set (provided es) \<longrightarrow> (n, v') \<in> set (provided es) \<longrightarrow> v = v')"
    show ?thesis
    proof (rule that [of es ds])
      show "trace w' = trace w @ es" using h(1) eq(2) by simp
      show "sc' = sc\<lparr>disposers := disposers sc @ ds\<rparr>" using h(2) eq(1) by simp
      show "nextRef w \<le> nextRef w'" using h(8) eq(2) by simp
      show "plain (bindings w) \<longrightarrow> (\<forall>(n, v) \<in> set (provided es). fresh (nextRef w) (nextRef w') v)"
        using h(9) eq(2) by simp
    qed (rule h)+
  qed
next
  case (resolved_all w2 objs sc4 w4)
  from assms resolved_all(3) have eq: "sc' = sc4"
    "w' = w4\<lparr>bindings := bindings w, cache := cache w, snapshots := snapshots w\<rparr>" by simp_all
  then have eq': "trace w' = trace w4" "nextRef w' = nextRef w4" by simp_all
  show ?thesis
  proof (rule injected_facts [OF resolved_all(1,2)])
    fix es ds
    assume h: "trace w4 = trace w @ es" "sc4 = sc\<lparr>disposers := disposers sc @ ds\<rparr>"
      "released es = []" "invoked es = []" "acquired es = map fst ds"
      "distinct (map fst ds)" "set (map fst ds) \<inter> fst ` set (disposers sc) = {}"
      "nextRef w \<le> nextRef w4"
      "plain (bindings w) \<longrightarrow> (\<forall>(n, v) \<in> set (provided es). fresh (nextRef w) (nextRef w4) v)"
      "plain (bindings w) \<longrightarrow>
         (\<forall>n v v'. (n, v) \<in> set (provided es) \<longrightarrow> (n, v') \<in> set (provided es) \<longrightarrow> v = v')"
    show ?thesis
    proof (rule that [of es ds])
      show "trace w' = trace w @ es" using h(1) eq'(1) by simp
      show "sc' = sc\<lparr>disposers := disposers sc @ ds\<rparr>" using h(2) eq(1) by simp
      show "nextRef w \<le> nextRef w'" using h(8) eq'(2) by simp
      show "plain (bindings w) \<longrightarrow> (\<forall>(n, v) \<in> set (provided es). fresh (nextRef w) (nextRef w') v)"
        using h(9) eq'(2) by simp
    qed (rule h)+
  qed
qed

section \<open>Properties of run\<close>

lemma dispose_trace: "dispose ds w = w\<lparr>trace := trace w @ releases ds\<rparr>"
  by (induction ds arbitrary: w) (auto split: sum.splits)

lemma releases_log:
  "released (releases ds) = fulfilled ds" "acquired (releases ds) = []"
  "invoked (releases ds) = []" "provided (releases ds) = []"
  by (induction ds) (auto split: sum.splits)

lemma fulfilled_all: "rejection ds = None \<Longrightarrow> fulfilled ds = map fst ds"
  by (induction ds) (auto split: sum.splits)

lemma fulfilled_subseq: "set (fulfilled ds) \<subseteq> fst ` set ds"
  by (induction ds) (auto split: sum.splits)

lemma fulfilled_distinct: "distinct (map fst ds) \<Longrightarrow> distinct (fulfilled ds)"
proof (induction ds)
  case (Cons a ds)
  then show ?case using fulfilled_subseq [of ds]
    by (cases a) (auto split: sum.splits)
qed simp

text \<open>The three ways \<open>run\<close> can end.\<close>

lemma run_cases:
  assumes "run sc task w = (out, sc', w')"
  obtains
    (thrown) e where "resolution (sc, w) = (Inl e, sc', w')" "out = Thrown e"
  | (rejected) objs w1 e where "resolution (sc, w) = (Inr objs, sc', w1)"
      "rejection (disposers sc') = Some e" "out = Rejected e"
      "w' = w1\<lparr>trace := trace w1 @ releases (disposers sc')\<rparr>"
  | (invoked) objs w1 where "resolution (sc, w) = (Inr objs, sc', w1)"
      "rejection (disposers sc') = None" "out = settle (task objs)"
      "w' = w1\<lparr>trace := trace w1 @ Invoke objs # releases (disposers sc')\<rparr>"
proof -
  obtain r sc1 w1 where res: "resolution (sc, w) = (r, sc1, w1)"
    by (metis prod_cases3)
  show ?thesis
  proof (cases r)
    case (Inl e)
    with res assms show ?thesis using thrown by (simp add: run_def)
  next
    case (Inr objs)
    from res Inr assms have eq: "sc1 = sc'"
      by (simp add: run_def Promise_using_def split: option.splits)
    show ?thesis
    proof (cases "rejection (disposers sc')")
      case None
      from res Inr assms None eq have "out = settle (task objs)"
        "w' = w1\<lparr>trace := trace w1 @ Invoke objs # releases (disposers sc')\<rparr>"
        by (auto simp add: run_def Promise_using_def dispose_trace)
      with res Inr eq None show ?thesis using invoked [of objs w1] by simp
    next
      case (Some e)
      from res Inr assms Some eq have "out = Rejected e"
        "w' = w1\<lparr>trace := trace w1 @ releases (disposers sc')\<rparr>"
        by (auto simp add: run_def Promise_using_def dispose_trace)
      with res Inr eq Some show ?thesis using rejected [of objs w1 e] by simp
    qed
  qed
qed

lemma events_append: "trace w' = trace w @ es \<Longrightarrow> events w w' = es"
  by (simp add: events_def)

lemma resolution_restores:
  assumes "resolution (sc, w) = (Inr objs, sc', w')"
  shows "bindings w' = bindings w \<and> cache w' = cache w \<and> snapshots w' = snapshots w"
proof (cases rule: resolution_cases [of sc w])
  case (context_failed e w2)
  with assms show ?thesis by simp
next
  case (inject_failed w2 e sc4 w4)
  with assms show ?thesis by simp
next
  case (resolved_all w2 objs' sc4 w4)
  with assms have "w' = w4\<lparr>bindings := bindings w, cache := cache w, snapshots := snapshots w\<rparr>"
    by simp
  then show ?thesis by simp
qed

text \<open>A run that does not throw leaves the registry as it found it.\<close>

lemma run_restores_registry:
  assumes "run sc task w = (out, sc', w')" and "\<forall>e. out \<noteq> Thrown e"
  shows "bindings w' = bindings w \<and> cache w' = cache w \<and> snapshots w' = snapshots w"
  using assms(1)
proof (cases rule: run_cases)
  case (thrown e)
  with assms(2) show ?thesis by simp
next
  case (rejected objs w1 e)
  from resolution_restores [OF rejected(1)] rejected(4) show ?thesis by simp
next
  case (invoked objs w1)
  from resolution_restores [OF invoked(1)] invoked(4) show ?thesis by simp
qed

text \<open>The log of a whole run: the events of its resolution, then the task and the releases.\<close>

lemma run_log:
  assumes "run sc task w = (out, sc', w')"
  obtains es ds post where "events w w' = es @ post"
    and "sc' = sc\<lparr>disposers := disposers sc @ ds\<rparr>"
    and "released es = []" and "invoked es = []" and "acquired es = map fst ds"
    and "distinct (map fst ds)" and "set (map fst ds) \<inter> fst ` set (disposers sc) = {}"
    and "acquired post = []" and "provided post = []"
    and "post = [] \<or> post = releases (disposers sc')
           \<or> (\<exists>objs. post = Invoke objs # releases (disposers sc')
                 \<and> rejection (disposers sc') = None \<and> out = settle (task objs))"
    and "nextRef w \<le> nextRef w'"
    and "plain (bindings w) \<longrightarrow> (\<forall>(n, v) \<in> set (provided es). fresh (nextRef w) (nextRef w') v)"
    and "plain (bindings w) \<longrightarrow>
           (\<forall>n v v'. (n, v) \<in> set (provided es) \<longrightarrow> (n, v') \<in> set (provided es) \<longrightarrow> v = v')"
  using assms
proof (cases rule: run_cases)
  case (thrown e)
  from thrown(1) show ?thesis
  proof (rule resolution_facts)
    fix es ds
    assume h: "trace w' = trace w @ es" "sc' = sc\<lparr>disposers := disposers sc @ ds\<rparr>"
      "released es = []" "invoked es = []" "acquired es = map fst ds"
      "distinct (map fst ds)" "set (map fst ds) \<inter> fst ` set (disposers sc) = {}"
      "nextRef w \<le> nextRef w'"
      "plain (bindings w) \<longrightarrow> (\<forall>(n, v) \<in> set (provided es). fresh (nextRef w) (nextRef w') v)"
      "plain (bindings w) \<longrightarrow>
         (\<forall>n v v'. (n, v) \<in> set (provided es) \<longrightarrow> (n, v') \<in> set (provided es) \<longrightarrow> v = v')"
    show ?thesis
    proof (rule that [of es "[]" ds])
      show "events w w' = es @ []" using h(1) by (simp add: events_append)
    qed (use h in simp_all)
  qed
next
  case (rejected objs w1 e)
  from rejected(1) show ?thesis
  proof (rule resolution_facts)
    fix es ds
    assume h: "trace w1 = trace w @ es" "sc' = sc\<lparr>disposers := disposers sc @ ds\<rparr>"
      "released es = []" "invoked es = []" "acquired es = map fst ds"
      "distinct (map fst ds)" "set (map fst ds) \<inter> fst ` set (disposers sc) = {}"
      "nextRef w \<le> nextRef w1"
      "plain (bindings w) \<longrightarrow> (\<forall>(n, v) \<in> set (provided es). fresh (nextRef w) (nextRef w1) v)"
      "plain (bindings w) \<longrightarrow>
         (\<forall>n v v'. (n, v) \<in> set (provided es) \<longrightarrow> (n, v') \<in> set (provided es) \<longrightarrow> v = v')"
    have n: "nextRef w' = nextRef w1" using rejected(4) by simp
    show ?thesis
    proof (rule that [of es "releases (disposers sc')" ds])
      show "events w w' = es @ releases (disposers sc')"
        using h(1) rejected(4) by (simp add: events_append)
      show "nextRef w \<le> nextRef w'" using h(8) n by simp
      show "plain (bindings w) \<longrightarrow> (\<forall>(n, v) \<in> set (provided es). fresh (nextRef w) (nextRef w') v)"
        using h(9) n by simp
    qed (use h in \<open>simp_all add: releases_log\<close>)
  qed
next
  case (invoked objs w1)
  from invoked(1) show ?thesis
  proof (rule resolution_facts)
    fix es ds
    assume h: "trace w1 = trace w @ es" "sc' = sc\<lparr>disposers := disposers sc @ ds\<rparr>"
      "released es = []" "invoked es = []" "acquired es = map fst ds"
      "distinct (map fst ds)" "set (map fst ds) \<inter> fst ` set (disposers sc) = {}"
      "nextRef w \<le> nextRef w1"
      "plain (bindings w) \<longrightarrow> (\<forall>(n, v) \<in> set (provided es). fresh (nextRef w) (nextRef w1) v)"
      "plain (bindings w) \<longrightarrow>
         (\<forall>n v v'. (n, v) \<in> set (provided es) \<longrightarrow> (n, v') \<in> set (provided es) \<longrightarrow> v = v')"
    have n: "nextRef w' = nextRef w1" using invoked(4) by simp
    show ?thesis
    proof (rule that [of es "Invoke objs # releases (disposers sc')" ds])
      show "events w w' = es @ Invoke objs # releases (disposers sc')"
        using h(1) invoked(4) by (simp add: events_append)
      show "nextRef w \<le> nextRef w'" using h(8) n by simp
      show "plain (bindings w) \<longrightarrow> (\<forall>(n, v) \<in> set (provided es). fresh (nextRef w) (nextRef w') v)"
        using h(9) n by simp
      show "Invoke objs # releases (disposers sc') = [] \<or>
            Invoke objs # releases (disposers sc') = releases (disposers sc') \<or>
            (\<exists>objs'. Invoke objs # releases (disposers sc') = Invoke objs' # releases (disposers sc')
               \<and> rejection (disposers sc') = None \<and> out = settle (task objs'))"
        using invoked(2,3) by simp
    qed (use h in \<open>simp_all add: releases_log\<close>)
  qed
qed

lemma resolve_all_Cons_Inr:
  assumes "resolve_all bnd stk (i # ids) st = (Inr vs, st')"
  obtains v st1 vs' where "resolve bnd stk i st = (Inr v, st1)"
    and "resolve_all bnd stk ids st1 = (Inr vs', st')" and "vs = v # vs'"
proof -
  obtain r1 st1 where a: "resolve bnd stk i st = (r1, st1)" by (metis surj_pair)
  show ?thesis
  proof (cases r1)
    case (Inl e)
    with a assms show ?thesis by simp
  next
    case v: (Inr v)
    obtain r2 st2 where b: "resolve_all bnd stk ids st1 = (r2, st2)" by (metis surj_pair)
    show ?thesis
    proof (cases r2)
      case (Inl e)
      with a v b assms show ?thesis by simp
    next
      case (Inr vs')
      with a v b assms have "vs = v # vs'" "st2 = st'" by simp_all
      with a v b Inr show ?thesis using that by simp
    qed
  qed
qed

lemma resolve_all_in_order:
  assumes "resolve_all bnd stk ids st = (Inr vs, st')"
  shows "length vs = length ids
    \<and> (\<exists>sts. length sts = Suc (length ids) \<and> sts ! 0 = st \<and> sts ! length ids = st'
          \<and> (\<forall>k < length ids. resolve bnd stk (ids ! k) (sts ! k) = (Inr (vs ! k), sts ! Suc k)))"
  using assms
proof (induction ids arbitrary: st vs)
  case Nil
  then have "vs = []" "st' = st" by simp_all
  then show ?case by (intro conjI exI [of _ "[st]"]) simp_all
next
  case (Cons i ids)
  from Cons.prems obtain v st1 vs' where
    a: "resolve bnd stk i st = (Inr v, st1)" and
    b: "resolve_all bnd stk ids st1 = (Inr vs', st')" and
    c: "vs = v # vs'"
    by (rule resolve_all_Cons_Inr)
  from Cons.IH [OF b] obtain sts where
    l: "length vs' = length ids" and
    s: "length sts = Suc (length ids)" "sts ! 0 = st1" "sts ! length ids = st'"
       "\<forall>k < length ids. resolve bnd stk (ids ! k) (sts ! k) = (Inr (vs' ! k), sts ! Suc k)"
    by blast
  have steps: "\<forall>k < length (i # ids).
          resolve bnd stk ((i # ids) ! k) ((st # sts) ! k) = (Inr (vs ! k), (st # sts) ! Suc k)"
  proof (intro allI impI)
    fix k assume k: "k < length (i # ids)"
    show "resolve bnd stk ((i # ids) ! k) ((st # sts) ! k) = (Inr (vs ! k), (st # sts) ! Suc k)"
    proof (cases k)
      case 0
      with a c s(2) show ?thesis by simp
    next
      case (Suc j)
      with k have "j < length ids" by simp
      with s(4) have "resolve bnd stk (ids ! j) (sts ! j) = (Inr (vs' ! j), sts ! Suc j)" by blast
      with Suc c show ?thesis by simp
    qed
  qed
  have "length vs = length (i # ids)" using l c by simp
  moreover have "length (st # sts) = Suc (length (i # ids))" using s(1) by simp
  moreover have "(st # sts) ! 0 = st" by simp
  moreover have "(st # sts) ! length (i # ids) = st'" using s(3) by simp
  ultimately show ?case using steps by (intro conjI exI [of _ "st # sts"])
qed

text \<open>
  When an acquisition is rejected, the task is not invoked, the rejection is the result, and
  the resources whose acquisition was fulfilled are released.
\<close>

lemma rejected_acquisition_releases_acquired:
  assumes fresh_scope: "disposers sc = []"
    and res: "resolution (sc, w) = (Inr objs, sc1, w1)"
    and acq: "rejection (disposers sc1) = Some e"
    and r: "run sc task w = (out, sc', w')"
  shows "out = Rejected e \<and> invoked (events w w') = []
    \<and> released (events w w') = fulfilled (disposers sc')
    \<and> acquired (events w w') = map fst (disposers sc')"
proof -
  from r have eq: "out = Rejected e \<and> sc' = sc1
    \<and> w' = w1\<lparr>trace := trace w1 @ releases (disposers sc1)\<rparr>"
  proof (cases rule: run_cases)
    case (thrown e')
    with res show ?thesis by simp
  next
    case (rejected objs' w1' e')
    with res acq show ?thesis by simp
  next
    case (invoked objs' w1')
    with res acq show ?thesis by simp
  qed
  from res show ?thesis
  proof (rule resolution_facts)
    fix es ds
    assume "trace w1 = trace w @ es" "sc1 = sc\<lparr>disposers := disposers sc @ ds\<rparr>"
      "released es = []" "invoked es = []" "acquired es = map fst ds"
    with eq fresh_scope show ?thesis by (simp add: events_def releases_log)
  qed
qed

text \<open>An instance is handed out only under a name that is truthy in the disposer set.\<close>

lemma resolved_truthy:
  assumes "resolved bnd stk (sc, w) (sc', w')" and "trace w' = trace w @ es"
  shows "\<forall>(n, v) \<in> set (provided es). truthy (disposers sc') n"
proof -
  from assms(1) obtain es0 where
    w: "w' = w\<lparr>cache := cache w', nextRef := nextRef w', heap := heap w', trace := trace w @ es0\<rparr>"
    and t: "\<forall>(n, v) \<in> set (provided es0). truthy (disposers sc') n"
    unfolding resolved_def by auto
  from arg_cong [OF w, of trace] assms(2) have "es0 = es" by simp
  with t show ?thesis by simp
qed

lemma resolution_truthy:
  assumes "resolution (sc, w) = (r, sc', w')"
  shows "\<forall>(n, v) \<in> set (provided (events w w')). truthy (disposers sc') n"
proof (cases rule: resolution_cases [of sc w])
  case (context_failed e w2)
  from bindScopeContext_frame [OF context_failed(1)]
  have "trace w2 = trace w" by (simp add: kernel_snapshot_def)
  with assms context_failed(2) show ?thesis by (simp add: events_def)
next
  case (inject_failed w2 e sc4 w4)
  let ?w3 = "fold bindResource (scopeResources sc) w2"
  from bindScopeContext_frame [OF inject_failed(1)]
  have t3: "trace ?w3 = trace w" by (simp add: kernel_snapshot_def fold_bindResource_frame)
  have res: "resolved (bindings ?w3) [] (sc, ?w3) (sc4, w4)"
    using resolve_resolved(2) [of "bindings ?w3" "[]" "(sc, ?w3)" "injections sc"] inject_failed(2)
    by simp
  from res obtain es where es: "trace w4 = trace ?w3 @ es" by (rule resolved_events)
  from resolved_truthy [OF res es] es t3 assms inject_failed(3) show ?thesis
    by (simp add: events_def)
next
  case (resolved_all w2 objs sc4 w4)
  let ?w3 = "fold bindResource (scopeResources sc) w2"
  from bindScopeContext_frame [OF resolved_all(1)]
  have t3: "trace ?w3 = trace w" by (simp add: kernel_snapshot_def fold_bindResource_frame)
  have res: "resolved (bindings ?w3) [] (sc, ?w3) (sc4, w4)"
    using resolve_resolved(2) [of "bindings ?w3" "[]" "(sc, ?w3)" "injections sc"] resolved_all(2)
    by simp
  from res obtain es where es: "trace w4 = trace ?w3 @ es" by (rule resolved_events)
  from assms resolved_all(3) have eq: "sc' = sc4" "trace w' = trace w4" by auto
  from resolved_truthy [OF res es] es t3 eq show ?thesis
    by (simp add: events_def)
qed

lemma count_list_fulfilled:
  assumes "distinct (map fst ds)" and "(n, d) \<in> set ds"
  shows "count_list (fulfilled ds) n = (case promise d of Inl e \<Rightarrow> 0 | Inr v \<Rightarrow> 1)"
  using assms
proof (induction ds)
  case Nil
  then show ?case by simp
next
  case (Cons a ds)
  obtain m d' where a: "a = (m, d')" by (cases a)
  show ?case
  proof (cases "(n, d) = (m, d')")
    case True
    with Cons.prems a have "n \<notin> fst ` set ds" by auto
    with fulfilled_subseq [of ds] have "n \<notin> set (fulfilled ds)" by auto
    then have "count_list (fulfilled ds) n = 0" by (simp add: count_list_0_iff)
    with True a show ?thesis by (simp split: sum.splits)
  next
    case False
    with Cons.prems a have in_ds: "(n, d) \<in> set ds" and "distinct (map fst ds)" by auto
    with Cons.prems a have "n \<noteq> m" by force
    with Cons.IH [OF \<open>distinct (map fst ds)\<close> in_ds] a show ?thesis
      by (simp split: sum.splits)
  qed
qed



text \<open>
  On a context that holds nothing under \<open>hasOwnProperty\<close>, \<open>setOnce\<close> and \<open>get\<close> treat every
  name but \<open>__proto__\<close> as a write-once dictionary does.
\<close>

lemma setOnce_ordinary_key:
  assumes "heap w this ''hasOwnProperty'' = None" and "name \<noteq> ''__proto__''"
  shows "(heap w this name = Some old \<longrightarrow>
            setOnce this name v w = (Inl (DuplicateKey name), w)
            \<and> get this name (snd (setOnce this name v w)) = Inr old)
       \<and> (heap w this name = None \<longrightarrow>
            fst (setOnce this name v w) = Inr this
            \<and> heap (snd (setOnce this name v w)) this = (heap w this)(name \<mapsto> v)
            \<and> (\<forall>r. r \<noteq> this \<longrightarrow> heap (snd (setOnce this name v w)) r = heap w r))"
  using assms by (auto simp: setOnce_def get_def hasOwnProperty_def assign_def)

lemma get_ordinary_key:
  assumes "heap w this ''hasOwnProperty'' = None"
  shows "(get this name w = Inl (MissingKey name) \<longleftrightarrow> heap w this name = None)
       \<and> (heap w this name = Some v \<longrightarrow> get this name w = Inr v)
       \<and> (heap w this name = None \<longrightarrow> name \<noteq> ''__proto__'' \<longrightarrow> name \<noteq> ''hasOwnProperty'' \<longrightarrow>
            get this name (snd (setOnce this name v w)) = Inr v)"
  using assms by (auto simp: setOnce_def get_def hasOwnProperty_def assign_def split: option.splits)

text \<open>
  A resource class named \<open>valueOf\<close>: \<open>this.disposers[name]\<close> is the inherited method, no
  disposer is made and nothing is released.
\<close>

lemma inherited_name_skips_disposer:
  "fst (run inheritedScope taskOk okWorld) = Fulfilled (VConst ''done'')
   \<and> events okWorld (snd (snd (run inheritedScope taskOk okWorld)))
       = [Provide ''valueOf'' (VObj 0 ValueOf []), Invoke [VObj 0 ValueOf []]]
   \<and> disposers (fst (snd (run inheritedScope taskOk okWorld))) = []"
  by code_simp

lemma triple_collapse: "p = (fst p, fst (snd p), snd (snd p))"
  by simp

section \<open>The registry after run\<close>

text \<open>
  Claim C1: after \<open>run\<close>, however it ends, the registry is as it was before. \<open>run\<close>
  restores the snapshot on one path only, the one where every step before
  \<open>kernel.restore()\<close> returns (di.ts, lines 122-126; lemma \<open>run_restores_registry\<close>). At
  a scope that declares an identifier nobody bound, \<open>run\<close> throws out of
  \<open>injectScopeParameters\<close>: the bindings of \<open>ScopeContext\<close> and of the resource stay in the
  registry and the snapshot stays on the stack. A context object whose population throws
  (a key after \<open>hasOwnProperty\<close>) leaves the \<open>ScopeContext\<close> binding behind in the same way.
\<close>

theorem failed_resolution_leaks_overlay:
  "fst (run missingScope taskOk okWorld) = Thrown (NotBound (StrId ''Missing''))
   \<and> map fst (bindings okWorld)
       = [ClsId Foo, ClsId Bar, ClsId Baz, ClsId BazBaz, StrId ''Constant'']
   \<and> map fst (bindings (snd (snd (run missingScope taskOk okWorld))))
       = [ClsId Foo, ClsId Bar, ClsId Baz, ClsId BazBaz, StrId ''Constant'',
          ClsId ScopeContext, StrId ''Resource@instance'', ClsId Resource]
   \<and> snapshots okWorld = []
   \<and> length (snapshots (snd (snd (run missingScope taskOk okWorld)))) = 1
   \<and> fst (run shadowScope taskOk okWorld) = Thrown TypeError
   \<and> map fst (bindings (snd (snd (run shadowScope taskOk okWorld))))
       = [ClsId Foo, ClsId Bar, ClsId Baz, ClsId BazBaz, StrId ''Constant'', ClsId ScopeContext]"
  by code_simp

section \<open>Release of the resources\<close>

text \<open>
  Claim C2: for a scope with an empty disposer set (as \<open>scope\<close> makes it), no release
  runs for a resource that was not acquired in the run. When resolution succeeds and every
  acquisition it started is fulfilled, which is when the task runs, then for every task the
  result of \<open>run\<close> is the settled result of the task, and the log of the run is: the events
  of resolution, none of them a release or an invocation; the invocation; then the releases,
  one for each disposer recorded, in the order recorded, under distinct names. So every
  recorded release runs exactly once, after the task, whether the task returns, throws,
  resolves or rejects.
\<close>

theorem releases_exactly_once_after_task:
  assumes fresh_scope: "disposers sc = []"
    and r: "run sc task w = (out, sc', w')"
  shows "set (released (events w w')) \<subseteq> set (acquired (events w w'))
    \<and> (\<forall>objs sc1 w1.
          resolution (sc, w) = (Inr objs, sc1, w1) \<longrightarrow> rejection (disposers sc1) = None \<longrightarrow>
            out = settle (task objs)
            \<and> events w w' = events w w1 @ Invoke objs # releases (disposers sc')
            \<and> released (events w w1) = [] \<and> invoked (events w w1) = []
            \<and> acquired (events w w1) = map fst (disposers sc')
            \<and> released (releases (disposers sc')) = map fst (disposers sc')
            \<and> acquired (releases (disposers sc')) = []
            \<and> invoked (releases (disposers sc')) = []
            \<and> distinct (map fst (disposers sc')))"
proof -
  have 1: "set (released (events w w')) \<subseteq> set (acquired (events w w'))"
    using r
  proof (rule run_log)
    fix es ds post
    assume h: "events w w' = es @ post" "sc' = sc\<lparr>disposers := disposers sc @ ds\<rparr>"
      "released es = []" "acquired es = map fst ds"
      "post = [] \<or> post = releases (disposers sc')
           \<or> (\<exists>objs. post = Invoke objs # releases (disposers sc')
                 \<and> rejection (disposers sc') = None \<and> out = settle (task objs))"
    from h(2) fresh_scope have d: "disposers sc' = ds" by simp
    from h(5) d have "set (released post) \<subseteq> fst ` set ds"
      using fulfilled_subseq [of ds] by (auto simp: releases_log)
    with h(1,3,4) show ?thesis by auto
  qed
  have 2: "out = settle (task objs)
            \<and> events w w' = events w w1 @ Invoke objs # releases (disposers sc')
            \<and> released (events w w1) = [] \<and> invoked (events w w1) = []
            \<and> acquired (events w w1) = map fst (disposers sc')
            \<and> released (releases (disposers sc')) = map fst (disposers sc')
            \<and> acquired (releases (disposers sc')) = []
            \<and> invoked (releases (disposers sc')) = []
            \<and> distinct (map fst (disposers sc'))"
    if res: "resolution (sc, w) = (Inr objs, sc1, w1)" and acq: "rejection (disposers sc1) = None"
    for objs sc1 w1
  proof -
    from r have eq: "out = settle (task objs) \<and> sc' = sc1
      \<and> w' = w1\<lparr>trace := trace w1 @ Invoke objs # releases (disposers sc1)\<rparr>"
    proof (cases rule: run_cases)
      case (thrown e)
      with res show ?thesis by simp
    next
      case (rejected objs' w1' e)
      with res acq show ?thesis by simp
    next
      case (invoked objs' w1')
      with res show ?thesis by simp
    qed
    from res show ?thesis
    proof (rule resolution_facts)
      fix es ds
      assume h: "trace w1 = trace w @ es" "sc1 = sc\<lparr>disposers := disposers sc @ ds\<rparr>"
        "released es = []" "invoked es = []" "acquired es = map fst ds" "distinct (map fst ds)"
      from h(2) fresh_scope eq have d: "disposers sc' = ds" by simp
      have e1: "events w w1 = es" using h(1) by (simp add: events_def)
      have e2: "events w w' = es @ Invoke objs # releases ds"
        using h(1) eq d by (simp add: events_def)
      have f: "fulfilled ds = map fst ds" using acq eq d by (simp add: fulfilled_all)
      show ?thesis
        unfolding e1 e2 d using eq h(3,4,5,6) f by (simp add: releases_log)
    qed
  qed
  from 1 2 show ?thesis by blast
qed

theorem releases_exactly_once_after_task_witness:
  "disposers okScope = []
   \<and> fst (resolution (okScope, okWorld))
       = Inr [VObj 1 Baz [VObj 0 Resource []], VObj 2 BazBaz [VObj 0 Resource []]]
   \<and> rejection (disposers (fst (snd (resolution (okScope, okWorld))))) = None
   \<and> fst (run okScope taskOk okWorld) = Fulfilled (VConst ''done'')
   \<and> fst (run okScope taskThrows okWorld) = Rejected (UserError ''task'')
   \<and> fst (run okScope taskResolves okWorld) = Fulfilled (VConst ''later'')
   \<and> fst (run okScope taskRejects okWorld) = Rejected (UserError ''task'')
   \<and> released (releases (disposers (fst (snd (run okScope taskOk okWorld))))) = [''Resource'']
   \<and> released (releases (disposers (fst (snd (run okScope taskThrows okWorld))))) = [''Resource'']
   \<and> released (releases (disposers (fst (snd (run okScope taskResolves okWorld))))) = [''Resource'']
   \<and> released (releases (disposers (fst (snd (run okScope taskRejects okWorld))))) = [''Resource'']
   \<and> events okWorld (snd (snd (run okScope taskOk okWorld)))
       = events okWorld (snd (snd (resolution (okScope, okWorld))))
         @ Invoke [VObj 1 Baz [VObj 0 Resource []], VObj 2 BazBaz [VObj 0 Resource []]]
           # releases (disposers (fst (snd (run okScope taskOk okWorld))))
   \<and> events okWorld (snd (snd (run okScope taskThrows okWorld)))
       = events okWorld (snd (snd (resolution (okScope, okWorld))))
         @ Invoke [VObj 1 Baz [VObj 0 Resource []], VObj 2 BazBaz [VObj 0 Resource []]]
           # releases (disposers (fst (snd (run okScope taskThrows okWorld))))
   \<and> events okWorld (snd (snd (run okScope taskResolves okWorld)))
       = events okWorld (snd (snd (resolution (okScope, okWorld))))
         @ Invoke [VObj 1 Baz [VObj 0 Resource []], VObj 2 BazBaz [VObj 0 Resource []]]
           # releases (disposers (fst (snd (run okScope taskResolves okWorld))))
   \<and> events okWorld (snd (snd (run okScope taskRejects okWorld)))
       = events okWorld (snd (snd (resolution (okScope, okWorld))))
         @ Invoke [VObj 1 Baz [VObj 0 Resource []], VObj 2 BazBaz [VObj 0 Resource []]]
           # releases (disposers (fst (snd (run okScope taskRejects okWorld))))"
proof -
  let ?objs = "[VObj 1 Baz [VObj 0 Resource []], VObj 2 BazBaz [VObj 0 Resource []]]"
  have h1: "disposers okScope = []" by code_simp
  have h2: "fst (resolution (okScope, okWorld)) = Inr ?objs" by code_simp
  then have res: "resolution (okScope, okWorld) =
     (Inr ?objs, fst (snd (resolution (okScope, okWorld))), snd (snd (resolution (okScope, okWorld))))"
    by (simp add: prod_eq_iff)
  have h3: "rejection (disposers (fst (snd (resolution (okScope, okWorld))))) = None"
    by code_simp
  have o: "settle (taskOk ?objs) = Fulfilled (VConst ''done'')"
    "settle (taskThrows ?objs) = Rejected (UserError ''task'')"
    "settle (taskResolves ?objs) = Fulfilled (VConst ''later'')"
    "settle (taskRejects ?objs) = Rejected (UserError ''task'')"
    by (simp_all add: taskOk_def taskThrows_def taskResolves_def taskRejects_def)
  have d: "map fst (disposers (fst (snd (run okScope taskOk okWorld)))) = [''Resource'']"
    "map fst (disposers (fst (snd (run okScope taskThrows okWorld)))) = [''Resource'']"
    "map fst (disposers (fst (snd (run okScope taskResolves okWorld)))) = [''Resource'']"
    "map fst (disposers (fst (snd (run okScope taskRejects okWorld)))) = [''Resource'']"
    by code_simp+
  note t = releases_exactly_once_after_task [OF h1 triple_collapse, THEN conjunct2, rule_format,
      OF res h3]
  from t [of taskOk] t [of taskThrows] t [of taskResolves] t [of taskRejects] h1 h2 h3 o d
  show ?thesis by simp
qed

text \<open>
  Claim C3, as amended: in a run of a scope with an empty disposer set on a plain registry,
  one disposer is made for each name in the disposer set and no more; every instance handed
  out under one name is the same object; an instance handed out under a name that
  \<open>Object.prototype\<close> does not define has its disposer made; no resource is released twice;
  and when resolution succeeds, a disposer fires exactly once if its acquisition is
  fulfilled and never if it is rejected.
\<close>

theorem one_disposer_per_resource:
  assumes fresh_scope: "disposers sc = []"
    and registry: "plain (bindings w)"
    and r: "run sc task w = (out, sc', w')"
  shows "distinct (acquired (events w w'))
    \<and> acquired (events w w') = map fst (disposers sc')
    \<and> (\<forall>n v v'. (n, v) \<in> set (provided (events w w')) \<longrightarrow>
                 (n, v') \<in> set (provided (events w w')) \<longrightarrow> v = v')
    \<and> (\<forall>(n, v) \<in> set (provided (events w w')).
          n \<notin> set objectPrototypeKeys \<longrightarrow> n \<in> set (acquired (events w w')))
    \<and> distinct (released (events w w'))
    \<and> (\<forall>objs sc1 w1. resolution (sc, w) = (Inr objs, sc1, w1) \<longrightarrow>
          released (events w w') = fulfilled (disposers sc')
          \<and> (\<forall>(n, d) \<in> set (disposers sc').
                count_list (released (events w w')) n
                  = (case promise d of Inl e \<Rightarrow> 0 | Inr resource \<Rightarrow> 1)))"
  using r
proof (rule run_log)
  fix es ds post
  assume h: "events w w' = es @ post" "sc' = sc\<lparr>disposers := disposers sc @ ds\<rparr>"
    "released es = []" "invoked es = []" "acquired es = map fst ds"
    "distinct (map fst ds)" "acquired post = []" "provided post = []"
    "post = [] \<or> post = releases (disposers sc')
           \<or> (\<exists>objs. post = Invoke objs # releases (disposers sc')
                 \<and> rejection (disposers sc') = None \<and> out = settle (task objs))"
    "plain (bindings w) \<longrightarrow>
           (\<forall>n v v'. (n, v) \<in> set (provided es) \<longrightarrow> (n, v') \<in> set (provided es) \<longrightarrow> v = v')"
  from h(2) fresh_scope have d: "disposers sc' = ds" by simp
  have 1: "distinct (acquired (events w w'))" using h(1,5,6,7) by simp
  have 2: "acquired (events w w') = map fst (disposers sc')" using h(1,5,7) d by simp
  have 3: "\<forall>n v v'. (n, v) \<in> set (provided (events w w')) \<longrightarrow>
                 (n, v') \<in> set (provided (events w w')) \<longrightarrow> v = v'"
    using h(1,8,10) registry by simp
  have truthy: "\<forall>(n, v) \<in> set (provided es). truthy (disposers sc') n"
  proof -
    obtain res sc1 w1 where res: "resolution (sc, w) = (res, sc1, w1)" by (metis prod_cases3)
    have "sc' = sc1 \<and> provided (events w w') = provided (events w w1)"
      using r
    proof (cases rule: run_cases)
      case (thrown e)
      with res show ?thesis by simp
    next
      case (rejected objs w1' e)
      from resolution_facts [OF rejected(1)] obtain es' where "trace w1' = trace w @ es'" by metis
      with rejected res show ?thesis by (simp add: events_def releases_log)
    next
      case (invoked objs w1')
      from resolution_facts [OF invoked(1)] obtain es' where "trace w1' = trace w @ es'" by metis
      with invoked res show ?thesis by (simp add: events_def releases_log)
    qed
    with resolution_truthy [OF res] h(1,8) show ?thesis by simp
  qed
  have 4: "\<forall>(n, v) \<in> set (provided (events w w')).
          n \<notin> set objectPrototypeKeys \<longrightarrow> n \<in> set (acquired (events w w'))"
  proof (intro ballI, clarify)
    fix n v
    assume nv: "(n, v) \<in> set (provided (events w w'))" and np: "n \<notin> set objectPrototypeKeys"
    from nv h(1,8) have "(n, v) \<in> set (provided es)" by simp
    with truthy have "truthy (disposers sc') n" by blast
    with np obtain d' where "map_of (disposers sc') n = Some d'"
      unfolding truthy_def by auto
    then have "n \<in> fst ` set (disposers sc')"
      by (metis map_of_SomeD fst_conv image_eqI)
    with 2 show "n \<in> set (acquired (events w w'))" by simp
  qed
  have 5: "distinct (released (events w w'))"
    using h(9) h(1,3,6) d fulfilled_distinct [of ds] by (auto simp: releases_log)
  have 6: "released (events w w') = fulfilled (disposers sc')
          \<and> (\<forall>(n, d) \<in> set (disposers sc').
                count_list (released (events w w')) n
                  = (case promise d of Inl e \<Rightarrow> 0 | Inr resource \<Rightarrow> 1))"
    if res: "resolution (sc, w) = (Inr objs, sc1, w1)" for objs sc1 w1
  proof -
    have rel: "released (events w w') = fulfilled (disposers sc')"
      using r
    proof (cases rule: run_cases)
      case (thrown e)
      with res show ?thesis by simp
    next
      case (rejected objs' w1' e)
      from rejected(1) show ?thesis
      proof (rule resolution_facts)
        fix es' assume "trace w1' = trace w @ es'" "released es' = []"
        with rejected(4) show ?thesis by (simp add: events_def releases_log)
      qed
    next
      case (invoked objs' w1')
      from invoked(1) show ?thesis
      proof (rule resolution_facts)
        fix es' assume "trace w1' = trace w @ es'" "released es' = []"
        with invoked(4) show ?thesis by (simp add: events_def releases_log)
      qed
    qed
    moreover have "\<forall>(n, d) \<in> set (disposers sc').
                count_list (fulfilled (disposers sc')) n
                  = (case promise d of Inl e \<Rightarrow> 0 | Inr resource \<Rightarrow> 1)"
      using count_list_fulfilled [of ds] h(6) d by auto
    ultimately show ?thesis by simp
  qed
  from 1 2 3 4 5 6 show ?thesis by blast
qed

theorem one_disposer_per_resource_witness:
  "disposers okScope = [] \<and> disposers mixScope = [] \<and> plain (bindings okWorld)
   \<and> fst (resolution (okScope, okWorld))
       = Inr [VObj 1 Baz [VObj 0 Resource []], VObj 2 BazBaz [VObj 0 Resource []]]
   \<and> distinct (acquired (events okWorld (snd (snd (run okScope taskOk okWorld)))))
   \<and> provided (events okWorld (snd (snd (run okScope taskOk okWorld))))
       = [(''Resource'', VObj 0 Resource []), (''Resource'', VObj 0 Resource [])]
   \<and> released (events okWorld (snd (snd (run okScope taskOk okWorld))))
       = fulfilled (disposers (fst (snd (run okScope taskOk okWorld))))
   \<and> fulfilled (disposers (fst (snd (run okScope taskOk okWorld)))) = [''Resource'']
   \<and> fst (resolution (mixScope, okWorld)) = Inr [VObj 0 Resource [], VObj 1 Pool []]
   \<and> fst (run mixScope taskOk okWorld) = Rejected (UserError ''acquire'')
   \<and> map fst (disposers (fst (snd (run mixScope taskOk okWorld)))) = [''Resource'', ''Pool'']
   \<and> released (events okWorld (snd (snd (run mixScope taskOk okWorld))))
       = fulfilled (disposers (fst (snd (run mixScope taskOk okWorld))))
   \<and> fulfilled (disposers (fst (snd (run mixScope taskOk okWorld)))) = [''Resource'']"
proof -
  have h1: "disposers okScope = []" by code_simp
  have h1': "disposers mixScope = []" by code_simp
  have h2: "plain (bindings okWorld)" by code_simp
  have h3: "fst (resolution (okScope, okWorld))
       = Inr [VObj 1 Baz [VObj 0 Resource []], VObj 2 BazBaz [VObj 0 Resource []]]"
    by code_simp
  then have res: "resolution (okScope, okWorld) =
     (Inr [VObj 1 Baz [VObj 0 Resource []], VObj 2 BazBaz [VObj 0 Resource []]],
      fst (snd (resolution (okScope, okWorld))), snd (snd (resolution (okScope, okWorld))))"
    by (simp add: prod_eq_iff)
  have h3': "fst (resolution (mixScope, okWorld)) = Inr [VObj 0 Resource [], VObj 1 Pool []]"
    by code_simp
  then have res': "resolution (mixScope, okWorld) =
     (Inr [VObj 0 Resource [], VObj 1 Pool []],
      fst (snd (resolution (mixScope, okWorld))), snd (snd (resolution (mixScope, okWorld))))"
    by (simp add: prod_eq_iff)
  have e: "provided (events okWorld (snd (snd (run okScope taskOk okWorld))))
       = [(''Resource'', VObj 0 Resource []), (''Resource'', VObj 0 Resource [])]"
    "fulfilled (disposers (fst (snd (run okScope taskOk okWorld)))) = [''Resource'']"
    "fst (run mixScope taskOk okWorld) = Rejected (UserError ''acquire'')"
    "map fst (disposers (fst (snd (run mixScope taskOk okWorld)))) = [''Resource'', ''Pool'']"
    "fulfilled (disposers (fst (snd (run mixScope taskOk okWorld)))) = [''Resource'']"
    by code_simp+
  note a = one_disposer_per_resource [OF h1 h2 triple_collapse, of taskOk]
  note b = one_disposer_per_resource [OF h1' h2 triple_collapse, of taskOk]
  from a have a1: "distinct (acquired (events okWorld (snd (snd (run okScope taskOk okWorld)))))"
    by blast
  from a res have a2: "released (events okWorld (snd (snd (run okScope taskOk okWorld))))
       = fulfilled (disposers (fst (snd (run okScope taskOk okWorld))))"
    by blast
  from b res' have b2: "released (events okWorld (snd (snd (run mixScope taskOk okWorld))))
       = fulfilled (disposers (fst (snd (run mixScope taskOk okWorld))))"
    by blast
  from h1 h1' h2 h3 h3' e a1 a2 b2 show ?thesis by simp
qed

text \<open>
  Claim C3 as stated fails where the acquisition is rejected: the disposer is made and
  recorded, \<open>Promise.using\<close> has nothing to release, and the disposer fires zero times.
\<close>

theorem rejected_acquisition_never_released:
  "acquired (events rejWorld (snd (snd (run rejScope taskOk rejWorld)))) = [''Resource'']
   \<and> map fst (disposers (fst (snd (run rejScope taskOk rejWorld)))) = [''Resource'']
   \<and> count_list (released (events rejWorld (snd (snd (run rejScope taskOk rejWorld))))) ''Resource'' = 0"
  by code_simp

text \<open>
  Claim C4: when an acquire step fails, the task is not invoked, \<open>run\<close> fails with that
  error and the resources acquired before are released. This holds when the failure is a
  rejected promise (lemma \<open>rejected_acquisition_releases_acquired\<close>). When the disposer
  factory throws, the error leaves \<open>run\<close> before \<open>Promise.using\<close> is reached: with the
  resources \<open>Resource\<close>, whose acquisition succeeds, and \<open>Pool\<close>, whose factory throws,
  \<open>Resource\<close> is acquired, its disposer is recorded, and nothing releases it.
\<close>

theorem thrown_acquisition_leaves_resource_acquired:
  "fst (run throwScope taskOk okWorld) = Thrown (UserError ''acquire'')
   \<and> events okWorld (snd (snd (run throwScope taskOk okWorld)))
       = [Acquire ''Resource'' (VObj 0 Resource []), Provide ''Resource'' (VObj 0 Resource [])]
   \<and> disposers (fst (snd (run throwScope taskOk okWorld)))
       = [(''Resource'', Disposer (Inr (VObj 0 Resource [])))]
   \<and> released (events okWorld (snd (snd (run throwScope taskOk okWorld)))) = []
   \<and> invoked (events okWorld (snd (snd (run throwScope taskOk okWorld)))) = []"
  by code_simp

section \<open>Instances across scopes\<close>

text \<open>
  Claim C5: on a plain registry, when a run that did not throw is followed by another run,
  an instance the second hands out under a resource name is never an instance the first
  handed out under that name.
\<close>

theorem sequential_scopes_distinct_instances:
  assumes registry: "plain (bindings w)"
    and first: "run sc1 task1 w = (out1, sc1', w1)"
    and resolved1: "\<forall>e. out1 \<noteq> Thrown e"
    and second: "run sc2 task2 w1 = (out2, sc2', w2)"
    and p1: "(n, v1) \<in> set (provided (events w w1))"
    and p2: "(n, v2) \<in> set (provided (events w1 w2))"
  shows "v1 \<noteq> v2"
proof -
  from run_restores_registry [OF first resolved1] registry
  have registry1: "plain (bindings w1)" by simp
  have f1: "fresh (nextRef w) (nextRef w1) v1"
    using first
  proof (rule run_log)
    fix es post
    assume "events w w1 = es @ post" "provided post = []"
      "plain (bindings w) \<longrightarrow> (\<forall>(n, v) \<in> set (provided es). fresh (nextRef w) (nextRef w1) v)"
    with p1 registry show ?thesis by auto
  qed
  have f2: "fresh (nextRef w1) (nextRef w2) v2"
    using second
  proof (rule run_log)
    fix es post
    assume "events w1 w2 = es @ post" "provided post = []"
      "plain (bindings w1) \<longrightarrow> (\<forall>(n, v) \<in> set (provided es). fresh (nextRef w1) (nextRef w2) v)"
    with p2 registry1 show ?thesis by auto
  qed
  from f1 f2 show ?thesis
    by (cases v1; cases v2) auto
qed

theorem sequential_scopes_distinct_instances_witness:
  "plain (bindings okWorld)
   \<and> fst (run okScope taskOk okWorld) = Fulfilled (VConst ''done'')
   \<and> (''Resource'', VObj 0 Resource [])
        \<in> set (provided (events okWorld (snd (snd (run okScope taskOk okWorld)))))
   \<and> (''Resource'', VObj 3 Resource [])
        \<in> set (provided (events (snd (snd (run okScope taskOk okWorld)))
              (snd (snd (run okScope taskOk (snd (snd (run okScope taskOk okWorld))))))))
   \<and> VObj 0 Resource [] \<noteq> VObj 3 Resource []"
proof -
  have h1: "plain (bindings okWorld)" by code_simp
  have h2: "fst (run okScope taskOk okWorld) = Fulfilled (VConst ''done'')" by code_simp
  then have h2': "\<forall>e. fst (run okScope taskOk okWorld) \<noteq> Thrown e" by simp
  have h3: "(''Resource'', VObj 0 Resource [])
        \<in> set (provided (events okWorld (snd (snd (run okScope taskOk okWorld)))))"
    by code_simp
  have h4: "(''Resource'', VObj 3 Resource [])
        \<in> set (provided (events (snd (snd (run okScope taskOk okWorld)))
              (snd (snd (run okScope taskOk (snd (snd (run okScope taskOk okWorld))))))))"
    by code_simp
  from sequential_scopes_distinct_instances [OF h1 triple_collapse h2' triple_collapse h3 h4]
    h1 h2 h3 h4
  show ?thesis by blast
qed

section \<open>Population of the context\<close>




section \<open>ScopeContext is write-once\<close>

text \<open>
  Claim C7: \<open>setOnce\<close> fails with the duplicate-key error on a name that has a value and
  stores the value on a name that has none. The code does so for the names that
  \<open>Object.prototype\<close> leaves alone (lemma \<open>setOnce_ordinary_key\<close>). \<open>this.context\<close> is a
  plain object: under \<open>__proto__\<close> the assignment makes no own property, so nothing is stored
  and a second \<open>setOnce\<close> returns as the first did; a value stored under \<open>hasOwnProperty\<close>
  takes the place of the method \<open>setOnce\<close> calls, and every later \<open>setOnce\<close> throws a
  \<open>TypeError\<close>, not the duplicate-key error.
\<close>

theorem setOnce_on_inherited_names:
  "fst (setOnce 0 ''__proto__'' (VConst ''1'') emptyWorld) = Inr 0
   \<and> heap (snd (setOnce 0 ''__proto__'' (VConst ''1'') emptyWorld)) 0 ''__proto__'' = None
   \<and> fst (setOnce 0 ''__proto__'' (VConst ''2'')
            (snd (setOnce 0 ''__proto__'' (VConst ''1'') emptyWorld))) = Inr 0
   \<and> fst (setOnce 0 ''hasOwnProperty'' (VConst ''1'') emptyWorld) = Inr 0
   \<and> heap (snd (setOnce 0 ''hasOwnProperty'' (VConst ''1'') emptyWorld)) 0 ''hasOwnProperty''
       = Some (VConst ''1'')
   \<and> fst (setOnce 0 ''hasOwnProperty'' (VConst ''2'')
            (snd (setOnce 0 ''hasOwnProperty'' (VConst ''1'') emptyWorld))) = Inl TypeError
   \<and> fst (setOnce 0 ''b'' (VConst ''2'')
            (snd (setOnce 0 ''hasOwnProperty'' (VConst ''1'') emptyWorld))) = Inl TypeError"
  by (simp add: setOnce_def hasOwnProperty_def assign_def emptyWorld_def)

text \<open>
  Claim C8: \<open>get\<close> fails with the missing-key error exactly when the name was never set and
  otherwise returns the value \<open>setOnce\<close> stored. The code does so for the names that
  \<open>Object.prototype\<close> leaves alone (lemma \<open>get_ordinary_key\<close>). After
  \<open>setOnce('__proto__', v)\<close>, which returned normally, \<open>get('__proto__')\<close> throws the
  missing-key error; after \<open>setOnce('hasOwnProperty', v)\<close> every \<open>get\<close> throws a
  \<open>TypeError\<close>, for the name that was set as for a name that was not.
\<close>

theorem get_on_inherited_names:
  "get 0 ''__proto__'' (snd (setOnce 0 ''__proto__'' (VConst ''1'') emptyWorld))
     = Inl (MissingKey ''__proto__'')
   \<and> get 0 ''hasOwnProperty'' (snd (setOnce 0 ''hasOwnProperty'' (VConst ''1'') emptyWorld))
     = Inl TypeError
   \<and> get 0 ''b'' (snd (setOnce 0 ''hasOwnProperty'' (VConst ''1'') emptyWorld))
     = Inl TypeError"
  by (simp add: get_def setOnce_def hasOwnProperty_def assign_def emptyWorld_def)

section \<open>inject and context\<close>

text \<open>
  Claim C10. A second \<open>inject\<close> replaces the declared identifiers (it does not append),
  a second \<open>context\<close> replaces the context data, and \<open>run\<close> behaves as if only the last
  call of each had been made.
\<close>

theorem last_declaration_wins:
  "inject b (inject a sc) = inject b sc
   \<and> injections (inject b (inject a sc)) = b
   \<and> scope_context d2 (scope_context d1 sc) = scope_context d2 sc
   \<and> objToBindScopeContext (scope_context d2 (scope_context d1 sc)) = Some d2
   \<and> run (inject b (inject a sc)) task w = run (inject b sc) task w
   \<and> run (scope_context d2 (scope_context d1 sc)) task w = run (scope_context d2 sc) task w
   \<and> run (inject b (scope_context d2 (inject a (scope_context d1 sc)))) task w
       = run (inject b (scope_context d2 sc)) task w"
  by (simp add: inject_def scope_context_def)

section \<open>The task and its arguments\<close>

text \<open>
  Claim C9, as amended: when resolution succeeds and every acquisition it started is
  fulfilled, the task is invoked once, on the resolved objects; there is one object for each
  declared identifier, the \<open>k\<close>-th being what \<open>kernel.get\<close> returns for the \<open>k\<close>-th
  identifier in the state the \<open>k\<close> earlier resolutions left, starting from the overlaid
  registry; and the result of the task is the result of \<open>run\<close>.
\<close>

theorem task_gets_objects_in_order:
  assumes res: "resolution (sc, w) = (Inr objs, sc1, w1)"
    and acq: "rejection (disposers sc1) = None"
    and r: "run sc task w = (out, sc', w')"
  shows "out = settle (task objs)
    \<and> invoked (events w w') = [objs]
    \<and> length objs = length (injections sc)
    \<and> (\<exists>sts. length sts = Suc (length (injections sc)) \<and> sts ! 0 = overlay (sc, w)
          \<and> (\<forall>k < length (injections sc).
                resolve (bindings (snd (overlay (sc, w)))) [] (injections sc ! k) (sts ! k)
                  = (Inr (objs ! k), sts ! Suc k)))"
proof -
  from r have eq: "out = settle (task objs) \<and> sc' = sc1
    \<and> w' = w1\<lparr>trace := trace w1 @ Invoke objs # releases (disposers sc1)\<rparr>"
  proof (cases rule: run_cases)
    case (thrown e)
    with res show ?thesis by simp
  next
    case (rejected objs' w1' e)
    with res acq show ?thesis by simp
  next
    case (invoked objs' w1')
    with res show ?thesis by simp
  qed
  have inv: "invoked (events w w') = [objs]"
    using res
  proof (rule resolution_facts)
    fix es assume "trace w1 = trace w @ es" "invoked es = []"
    with eq show ?thesis by (simp add: events_def releases_log)
  qed
  show ?thesis
  proof (cases rule: resolution_cases [of sc w])
    case (context_failed e w2)
    with res show ?thesis by simp
  next
    case (inject_failed w2 e sc4 w4)
    with res show ?thesis by simp
  next
    case (resolved_all w2 objs' sc4 w4)
    let ?w3 = "fold bindResource (scopeResources sc) w2"
    from resolved_all(1) have ov: "overlay (sc, w) = (sc, ?w3)"
      by (simp add: overlay_def bindScopeResources_def)
    from resolved_all(2,3) res
    have "resolve_all (bindings ?w3) [] (injections sc) (sc, ?w3) = (Inr objs, sc4, w4)"
      by simp
    from resolve_all_in_order [OF this] obtain sts where
      len: "length objs = length (injections sc)" and
      sts: "length sts = Suc (length (injections sc))" "sts ! 0 = (sc, ?w3)"
        "\<forall>k < length (injections sc).
           resolve (bindings ?w3) [] (injections sc ! k) (sts ! k) = (Inr (objs ! k), sts ! Suc k)"
      by blast
    have "\<exists>sts. length sts = Suc (length (injections sc)) \<and> sts ! 0 = overlay (sc, w)
          \<and> (\<forall>k < length (injections sc).
                resolve (bindings (snd (overlay (sc, w)))) [] (injections sc ! k) (sts ! k)
                  = (Inr (objs ! k), sts ! Suc k))"
      unfolding ov using sts by (intro exI [of _ sts]) simp
    with eq inv len show ?thesis by blast
  qed
qed

theorem task_gets_objects_in_order_witness:
  "resolution (okScope, okWorld) =
     (Inr [VObj 1 Baz [VObj 0 Resource []], VObj 2 BazBaz [VObj 0 Resource []]],
      fst (snd (resolution (okScope, okWorld))), snd (snd (resolution (okScope, okWorld))))
   \<and> rejection (disposers (fst (snd (resolution (okScope, okWorld))))) = None
   \<and> fst (run okScope taskOk okWorld)
       = settle (taskOk [VObj 1 Baz [VObj 0 Resource []], VObj 2 BazBaz [VObj 0 Resource []]])
   \<and> invoked (events okWorld (snd (snd (run okScope taskOk okWorld))))
       = [[VObj 1 Baz [VObj 0 Resource []], VObj 2 BazBaz [VObj 0 Resource []]]]
   \<and> injections okScope = [ClsId Baz, ClsId BazBaz]"
proof -
  have "fst (resolution (okScope, okWorld))
      = Inr [VObj 1 Baz [VObj 0 Resource []], VObj 2 BazBaz [VObj 0 Resource []]]"
    by code_simp
  then have h1: "resolution (okScope, okWorld) =
     (Inr [VObj 1 Baz [VObj 0 Resource []], VObj 2 BazBaz [VObj 0 Resource []]],
      fst (snd (resolution (okScope, okWorld))), snd (snd (resolution (okScope, okWorld))))"
    by (simp add: prod_eq_iff)
  have h2: "rejection (disposers (fst (snd (resolution (okScope, okWorld))))) = None"
    by code_simp
  have h3: "injections okScope = [ClsId Baz, ClsId BazBaz]" by code_simp
  from task_gets_objects_in_order [OF h1 h2 triple_collapse] h1 h2 h3
  show ?thesis by blast
qed

text \<open>
  Claim C9 as stated fails where resolution succeeds and an acquisition is rejected: the
  task is not invoked and \<open>run\<close> is rejected with the acquisition error, not settled with
  the result of the task.
\<close>

theorem rejected_acquisition_skips_task:
  "fst (resolution (rejScope, rejWorld))
     = Inr [VObj 1 Baz [VObj 0 Resource []], VObj 2 BazBaz [VObj 0 Resource []]]
   \<and> invoked (events rejWorld (snd (snd (run rejScope taskOk rejWorld)))) = []
   \<and> fst (run rejScope taskOk rejWorld) = Rejected (UserError ''acquire'')
   \<and> settle (taskOk [VObj 1 Baz [VObj 0 Resource []], VObj 2 BazBaz [VObj 0 Resource []]])
       = Fulfilled (VConst ''done'')"
  by code_simp

end
